theory Spec2Isabelle
  imports Main
begin



section \<open>Python values and exceptions\<close>

text \<open>
  The exceptions the modelled code can meet.  \<open>is_Exception\<close> tells the classes an
  \<^verbatim>\<open>except Exception\<close> clause catches from the ones deriving from BaseException only.
\<close>

datatype exn =
    FileExistsError | FileNotFoundError | IsADirectoryError | NotADirectoryError | OSError
  | ValueError | AttributeError | RuntimeError | YAMLError
  | KeyboardInterrupt | SystemExit

fun is_Exception :: "exn \<Rightarrow> bool" where
  "is_Exception KeyboardInterrupt = False"
| "is_Exception SystemExit = False"
| "is_Exception _ = True"

text \<open>
  What \<^verbatim>\<open>yaml.safe_load\<close> can return and \<^verbatim>\<open>yaml.safe_dump\<close> accepts: a dict is an
  association list, looked up by its first binding of a key.
\<close>

datatype pyval =
    PNone | PBool bool | PInt int | PStr string
  | PList "pyval list" | PDict "(pyval \<times> pyval) list"

fun truthy :: "pyval \<Rightarrow> bool" where
  "truthy PNone = False"
| "truthy (PBool b) = b"
| "truthy (PInt i) = (i \<noteq> 0)"
| "truthy (PStr s) = (s \<noteq> [])"
| "truthy (PList xs) = (xs \<noteq> [])"
| "truthy (PDict kvs) = (kvs \<noteq> [])"

text \<open>\<^verbatim>\<open>x.get(key, default)\<close>: only a dict has the method.\<close>

fun py_get :: "pyval \<Rightarrow> pyval \<Rightarrow> pyval \<Rightarrow> exn + pyval" where
  "py_get (PDict kvs) k d = Inr (case map_of kvs k of Some v \<Rightarrow> v | None \<Rightarrow> d)"
| "py_get _ k d = Inl AttributeError"

section \<open>config.py\<close>

record midi_config =
  inputs :: pyval
  outputs :: pyval

record config =
  midi :: midi_config

text \<open>\<^verbatim>\<open>Config()\<close>: both fields default to fresh empty lists.\<close>

definition Config0 :: config where
  "Config0 = \<lparr>midi = \<lparr>inputs = PList [], outputs = PList []\<rparr>\<rparr>"

subsection \<open>Paths and the file system\<close>

text \<open>
  A path is its list of components; the file system maps a path to what is there.
  File contents are text (\<^verbatim>\<open>read_text\<close> and \<^verbatim>\<open>write_text\<close> with the same encoding).
\<close>

type_synonym path = "string list"

datatype node = File string | Dir

type_synonym fs = "path \<rightharpoonup> node"

definition name_of :: "path \<Rightarrow> string" where
  "name_of p = (if p = [] then [] else last p)"

definition parent :: "path \<Rightarrow> path" where
  "parent p = butlast p"

text \<open>\<^verbatim>\<open>str.rfind\<close> for one character: the index of its last occurrence.\<close>

fun rfind :: "char \<Rightarrow> string \<Rightarrow> nat option" where
  "rfind c [] = None"
| "rfind c (x # xs) =
     (case rfind c xs of
        Some i \<Rightarrow> Some (Suc i)
      | None \<Rightarrow> if x = c then Some 0 else None)"

text \<open>
  \<^verbatim>\<open>PurePath.suffix\<close>: the name from its last dot on, unless that dot starts or ends
  the name.
\<close>

definition suffix_of :: "path \<Rightarrow> string" where
  "suffix_of p =
     (let name = name_of p in
      case rfind CHR ''.'' name of
        None \<Rightarrow> []
      | Some i \<Rightarrow> if 0 < i \<and> i < length name - 1 then drop i name else [])"

text \<open>
  \<^verbatim>\<open>PurePath.with_suffix\<close>: the suffix must start with a dot, be more than the dot and
  hold no separator; a path with an empty name is refused; the old suffix, if any, is
  replaced.
\<close>

definition with_suffix :: "path \<Rightarrow> string \<Rightarrow> exn + path" where
  "with_suffix p suffix =
     (if CHR ''/'' \<in> set suffix then Inl ValueError
      else if (suffix \<noteq> [] \<and> hd suffix \<noteq> CHR ''.'') \<or> suffix = ''.'' then Inl ValueError
      else let name = name_of p in
        if name = [] then Inl ValueError
        else let old_suffix = suffix_of p;
                 name' = (if old_suffix = [] then name @ suffix
                          else take (length name - length old_suffix) name @ suffix)
             in Inr (butlast p @ [name']))"

text \<open>
  How the operating system resolves the directories a path goes through, below the
  directory \<open>pre\<close>: a missing one is ENOENT, a regular file is ENOTDIR.
\<close>

fun walk :: "path \<Rightarrow> path \<Rightarrow> fs \<Rightarrow> exn option" where
  "walk pre [] fs = None"
| "walk pre (c # cs) fs =
     (case fs (pre @ [c]) of
        None \<Rightarrow> Some FileNotFoundError
      | Some (File t) \<Rightarrow> Some NotADirectoryError
      | Some Dir \<Rightarrow> walk (pre @ [c]) cs fs)"

text \<open>
  \<^verbatim>\<open>os.mkdir\<close>: the parent must resolve, and nothing may exist at the path.  The empty
  path is the directory the relative paths start from; it exists.
\<close>

definition os_mkdir :: "path \<Rightarrow> fs \<Rightarrow> exn + fs" where
  "os_mkdir d fs =
     (if d = [] then Inl FileExistsError
      else case walk [] (butlast d) fs of
        Some e \<Rightarrow> Inl e
      | None \<Rightarrow>
          (case fs d of
             None \<Rightarrow> Inr (fs(d \<mapsto> Dir))
           | Some n \<Rightarrow> Inl FileExistsError))"

text \<open>\<^verbatim>\<open>Path.is_dir\<close>: the path resolves to a directory.\<close>

definition is_dir :: "path \<Rightarrow> fs \<Rightarrow> bool" where
  "is_dir d fs = (walk [] d fs = None)"

text \<open>
  \<^verbatim>\<open>Path.mkdir(mode, parents, exist_ok)\<close>, as pathlib writes it: \<^verbatim>\<open>os.mkdir\<close> is tried
  first; on FileNotFoundError, with \<^verbatim>\<open>parents\<close>, the parent is made (with its own
  parents, an existing one accepted) and the directory is tried again without
  \<^verbatim>\<open>parents\<close>; any other OSError is dropped when \<^verbatim>\<open>exist_ok\<close> is set and the path is a
  directory, and raised otherwise.
\<close>

function mkdir :: "bool \<Rightarrow> bool \<Rightarrow> path \<Rightarrow> fs \<Rightarrow> exn + fs" where
  "mkdir parents exist_ok d fs =
     (case os_mkdir d fs of
        Inr fs1 \<Rightarrow> Inr fs1
      | Inl e \<Rightarrow>
          if e = FileNotFoundError then
            (if \<not> parents \<or> parent d = d then Inl e
             else case mkdir True True (parent d) fs of
                    Inl e1 \<Rightarrow> Inl e1
                  | Inr fs1 \<Rightarrow> mkdir False exist_ok d fs1)
          else if \<not> exist_ok \<or> \<not> is_dir d fs then Inl e
          else Inr fs)"
  by pat_completeness auto
termination
proof (relation "measure (\<lambda>(parents, exist_ok, d, fs). 2 * length d + (if parents then 1 else 0))")
  show "wf (measure (\<lambda>(parents, exist_ok, d, fs). 2 * length d + (if parents then 1 else 0)))"
    by simp
next
  fix parents exist_ok :: bool and d :: path and fs :: fs and e :: exn
  assume "\<not> (\<not> parents \<or> parent d = d)"
  then have "parents" "d \<noteq> []" by (auto simp: parent_def)
  then show "((True, True, parent d, fs), parents, exist_ok, d, fs)
        \<in> measure (\<lambda>(parents, exist_ok, d, fs). 2 * length d + (if parents then 1 else 0))"
    by (simp add: parent_def)
next
  fix parents exist_ok :: bool and d :: path and fs fs1 :: fs and e :: exn
  assume "\<not> (\<not> parents \<or> parent d = d)"
  then show "((False, exist_ok, d, fs1), parents, exist_ok, d, fs)
        \<in> measure (\<lambda>(parents, exist_ok, d, fs). 2 * length d + (if parents then 1 else 0))"
    by simp
qed

declare mkdir.simps [simp del]

text \<open>
  \<^verbatim>\<open>Path.write_text\<close> opens the file for writing and writes the text.  The open fails
  when the parent does not resolve or the path is a directory; otherwise it truncates the
  file.  The result lists the states the disk goes through: the truncated file, then
  one state for each longer prefix written, the last one holding the whole text.
\<close>

definition write_text :: "path \<Rightarrow> string \<Rightarrow> fs \<Rightarrow> exn + fs list" where
  "write_text q text fs =
     (if q = [] then Inl IsADirectoryError
      else case walk [] (butlast q) fs of
        Some e \<Rightarrow> Inl e
      | None \<Rightarrow>
          (case fs q of
             Some Dir \<Rightarrow> Inl IsADirectoryError
           | _ \<Rightarrow> Inr (map (\<lambda>k. fs(q \<mapsto> File (take k text))) [0..<Suc (length text)])))"

text \<open>
  \<^verbatim>\<open>Path.replace\<close> (\<^verbatim>\<open>os.replace\<close>): one atomic step; a file cannot replace a
  directory; replacing a path by itself changes nothing.
\<close>

definition replace :: "path \<Rightarrow> path \<Rightarrow> fs \<Rightarrow> exn + fs" where
  "replace src dst fs =
     (case fs src of
        None \<Rightarrow> Inl OSError
      | Some n \<Rightarrow>
          if src = dst then Inr fs
          else if fs dst = Some Dir \<and> n \<noteq> Dir then Inl IsADirectoryError
          else Inr ((fs(src := None))(dst \<mapsto> n)))"

subsection \<open>load_config and save_config\<close>

text \<open>
  \<^verbatim>\<open>yaml.safe_load\<close> and \<^verbatim>\<open>yaml.safe_dump\<close> belong to the PyYAML library: they are
  parameters of the model.
\<close>

definition load_config :: "(string \<Rightarrow> exn + pyval) \<Rightarrow> path \<Rightarrow> fs \<Rightarrow> exn + config" where
  "load_config safe_load p fs =
     (case fs p of
        None \<Rightarrow> Inr Config0
      | Some Dir \<Rightarrow> Inl IsADirectoryError
      | Some (File text) \<Rightarrow>
          (case safe_load text of
             Inl e \<Rightarrow> Inl e
           | Inr v \<Rightarrow>
               (let data = (if truthy v then v else PDict []) in
                case py_get data (PStr ''midi'') (PDict []) of
                  Inl e \<Rightarrow> Inl e
                | Inr m \<Rightarrow>
                    (case py_get m (PStr ''inputs'') (PList []) of
                       Inl e \<Rightarrow> Inl e
                     | Inr i \<Rightarrow>
                         (case py_get m (PStr ''outputs'') (PList []) of
                            Inl e \<Rightarrow> Inl e
                          | Inr ou \<Rightarrow> Inr \<lparr>midi = \<lparr>inputs = i, outputs = ou\<rparr>\<rparr>)))))"

definition config_data :: "config \<Rightarrow> pyval" where
  "config_data cfg =
     PDict [(PStr ''midi'',
             PDict [(PStr ''inputs'', inputs (midi cfg)),
                    (PStr ''outputs'', outputs (midi cfg))])]"

text \<open>
  \<open>save_config\<close> returns the exception that ends it, if any, and the states the disk
  went through, the state before the call first: a crash leaves the disk in one of them.
\<close>

definition save_config ::
  "(pyval \<Rightarrow> string) \<Rightarrow> config \<Rightarrow> path \<Rightarrow> fs \<Rightarrow> exn option \<times> fs list" where
  "save_config safe_dump cfg p fs =
     (case mkdir True True (parent p) fs of
        Inl e \<Rightarrow> (Some e, [fs])
      | Inr fs1 \<Rightarrow>
          (let data = config_data cfg in
           case with_suffix p ''.tmp'' of
             Inl e \<Rightarrow> (Some e, [fs, fs1])
           | Inr tmp \<Rightarrow>
               (case write_text tmp (safe_dump data) fs1 of
                  Inl e \<Rightarrow> (Some e, [fs, fs1])
                | Inr ws \<Rightarrow>
                    (case replace tmp p (last ws) of
                       Inl e \<Rightarrow> (Some e, [fs, fs1] @ ws)
                     | Inr fs2 \<Rightarrow> (None, [fs, fs1] @ ws @ [fs2])))))"

section \<open>midi_io.py\<close>

text \<open>
  A \<^verbatim>\<open>mido.Message\<close> is opaque to the program: its bytes.  A port object lives in a
  store, under the handle the program holds it by, so that the list of inputs and the
  multiplexed port share the same objects.  A port has the queue of the messages it has
  received and not yet handed out, the messages written to it, and whether its driver
  fails on \<^verbatim>\<open>close\<close> or \<^verbatim>\<open>send\<close>; the driver's failures are OSError.
\<close>

type_synonym message = "nat list"

record midi_event =
  timestamp :: int
  message :: message
  port_name :: "string option"

record port =
  name :: string
  port_open :: bool
  pending :: "message list"
  sent :: "message list"
  close_raises :: bool
  send_raises :: bool

datatype direction = In | Out

datatype io_call = Open direction string | Close nat | Send nat message

text \<open>
  The world outside the program: the port objects, the next fresh handle, the names the
  host can open in each direction, every call made to the MIDI library so far, and the
  clock \<^verbatim>\<open>time.time()\<close> reads.
\<close>

record world =
  ports :: "nat \<rightharpoonup> port"
  next_id :: nat
  input_names :: "string list"
  output_names :: "string list"
  calls :: "io_call list"
  now :: int

record midi_io =
  input_ports :: "nat list"
  output_ports :: "nat list"
  multi_in :: "nat list option"

text \<open>\<^verbatim>\<open>MidiIO()\<close>\<close>

definition MidiIO0 :: midi_io where
  "MidiIO0 = \<lparr>input_ports = [], output_ports = [], multi_in = None\<rparr>"

definition new_port :: "string \<Rightarrow> port" where
  "new_port n = \<lparr>name = n, port_open = True, pending = [], sent = [],
                 close_raises = False, send_raises = False\<rparr>"

text \<open>\<^verbatim>\<open>mido.open_input(n)\<close> and \<^verbatim>\<open>mido.open_output(n)\<close>: a new port object, or an error.\<close>

definition mido_open :: "direction \<Rightarrow> string \<Rightarrow> world \<Rightarrow> (exn + nat) \<times> world" where
  "mido_open d n w =
     (let w1 = w\<lparr>calls := calls w @ [Open d n]\<rparr> in
      if n \<in> set (case d of In \<Rightarrow> input_names w | Out \<Rightarrow> output_names w)
      then (Inr (next_id w),
            w1\<lparr>ports := (ports w)(next_id w \<mapsto> new_port n), next_id := Suc (next_id w)\<rparr>)
      else (Inl OSError, w1))"

text \<open>\<^verbatim>\<open>p.close()\<close>: when the driver fails the port stays open.\<close>

definition port_close :: "nat \<Rightarrow> world \<Rightarrow> exn option \<times> world" where
  "port_close h w =
     (let w1 = w\<lparr>calls := calls w @ [Close h]\<rparr> in
      case ports w h of
        None \<Rightarrow> (None, w1)
      | Some p \<Rightarrow>
          if close_raises p then (Some OSError, w1)
          else (None, w1\<lparr>ports := (ports w)(h \<mapsto> p\<lparr>port_open := False\<rparr>)\<rparr>))"

text \<open>\<^verbatim>\<open>o.send(msg)\<close>: a closed port and a failing driver raise.\<close>

definition port_send :: "nat \<Rightarrow> message \<Rightarrow> world \<Rightarrow> exn option \<times> world" where
  "port_send h msg w =
     (let w1 = w\<lparr>calls := calls w @ [Send h msg]\<rparr> in
      case ports w h of
        None \<Rightarrow> (None, w1)
      | Some p \<Rightarrow>
          if \<not> port_open p then (Some ValueError, w1)
          else if send_raises p then (Some OSError, w1)
          else (None, w1\<lparr>ports := (ports w)(h \<mapsto> p\<lparr>sent := sent p @ [msg]\<rparr>)\<rparr>))"

text \<open>
  The loop of \<open>close_inputs\<close> and \<open>close_outputs\<close>: each \<^verbatim>\<open>close()\<close> is inside
  \<^verbatim>\<open>try ... except Exception: pass\<close>, so its error is dropped and the loop goes on.
\<close>

fun close_all :: "nat list \<Rightarrow> world \<Rightarrow> world" where
  "close_all [] w = w"
| "close_all (h # hs) w = close_all hs (snd (port_close h w))"

definition close_inputs :: "midi_io \<times> world \<Rightarrow> midi_io \<times> world" where
  "close_inputs s =
     (let (m, w) = s in
      (m\<lparr>input_ports := [], multi_in := None\<rparr>, close_all (input_ports m) w))"

definition close_outputs :: "midi_io \<times> world \<Rightarrow> midi_io \<times> world" where
  "close_outputs s =
     (let (m, w) = s in (m\<lparr>output_ports := []\<rparr>, close_all (output_ports m) w))"

definition close :: "midi_io \<times> world \<Rightarrow> midi_io \<times> world" where
  "close s = close_outputs (close_inputs s)"

text \<open>
  The loop \<^verbatim>\<open>for n in names: ports_list.append(mido.open_...(n))\<close>: an error of the
  library leaves the loop and the function; the list built so far is lost with it.
\<close>

fun open_loop :: "direction \<Rightarrow> string list \<Rightarrow> nat list \<Rightarrow> world \<Rightarrow> (exn + nat list) \<times> world" where
  "open_loop d [] acc w = (Inr acc, w)"
| "open_loop d (n # ns) acc w =
     (case mido_open d n w of
        (Inl e, w1) \<Rightarrow> (Inl e, w1)
      | (Inr h, w1) \<Rightarrow> open_loop d ns (acc @ [h]) w1)"

definition open_inputs :: "string list \<Rightarrow> midi_io \<times> world \<Rightarrow> exn option \<times> midi_io \<times> world" where
  "open_inputs names s =
     (let (m1, w1) = close_inputs s in
      case open_loop In names [] w1 of
        (Inl e, w2) \<Rightarrow> (Some e, m1, w2)
      | (Inr ports_list, w2) \<Rightarrow>
          (None,
           m1\<lparr>input_ports := ports_list,
              multi_in := (if ports_list \<noteq> [] then Some ports_list else None)\<rparr>,
           w2))"

definition open_outputs :: "string list \<Rightarrow> midi_io \<times> world \<Rightarrow> exn option \<times> midi_io \<times> world" where
  "open_outputs names s =
     (let (m1, w1) = close_outputs s in
      case open_loop Out names [] w1 of
        (Inl e, w2) \<Rightarrow> (Some e, m1, w2)
      | (Inr outs, w2) \<Rightarrow> (None, m1\<lparr>output_ports := outs\<rparr>, w2))"

text \<open>
  \<^verbatim>\<open>for p in self.input_ports: for msg in p.iter_pending(): events.append(...)\<close>:
  every queue is emptied in turn, each message tagged with the name of its port.
\<close>

fun drain :: "nat list \<Rightarrow> world \<Rightarrow> midi_event list \<times> world" where
  "drain [] w = ([], w)"
| "drain (h # hs) w =
     (case ports w h of
        None \<Rightarrow> drain hs w
      | Some p \<Rightarrow>
          (let evs = map (\<lambda>msg. \<lparr>timestamp = now w, message = msg,
                                 port_name = Some (name p)\<rparr>) (pending p);
               (rest, w') = drain hs (w\<lparr>ports := (ports w)(h \<mapsto> p\<lparr>pending := []\<rparr>)\<rparr>)
           in (evs @ rest, w')))"

text \<open>
  The multiplexed port is \<^verbatim>\<open>mido.ports.MultiPort\<close>.  Its messages come from the
  generator \<^verbatim>\<open>multi_receive(ports, block)\<close>, which repeats: shuffle its copy of the port
  list, then for each port that is not closed yield everything \<^verbatim>\<open>iter_pending()\<close> gives;
  after such a sweep it stops if \<^verbatim>\<open>block\<close> is false and sleeps and starts over if it is
  true.  \<open>sweep\<close> is one pass over the ports.
\<close>

fun sweep :: "nat list \<Rightarrow> world \<Rightarrow> message list \<times> world" where
  "sweep [] w = ([], w)"
| "sweep (h # hs) w =
     (case ports w h of
        None \<Rightarrow> sweep hs w
      | Some p \<Rightarrow>
          if \<not> port_open p then sweep hs w
          else (let r = sweep hs (w\<lparr>ports := (ports w)(h \<mapsto> p\<lparr>pending := []\<rparr>)\<rparr>)
                in (pending p @ fst r, snd r)))"

text \<open>
  \<^verbatim>\<open>MultiPort._receive(block)\<close> is
  \<^verbatim>\<open>self._messages.extend(multi_receive(self.ports, block=block))\<close>: it returns when the
  generator is exhausted, with everything the generator yielded.  \<open>multi_receive\<close> is
  the generator run to its end; its result is \<open>None\<close> when it has no end.
\<close>

partial_function (option) multi_receive ::
  "(nat list \<Rightarrow> nat list) \<Rightarrow> bool \<Rightarrow> nat list \<Rightarrow> world \<Rightarrow> (message list \<times> world) option" where
  "multi_receive shuffle block ps w =
     (if block
      then Option.bind (multi_receive shuffle block (shuffle ps) (snd (sweep (shuffle ps) w)))
             (\<lambda>r. Some (fst (sweep (shuffle ps) w) @ fst r, snd r))
      else Some (sweep (shuffle ps) w))"

text \<open>
  \<^verbatim>\<open>MultiPort.receive()\<close>, that is \<^verbatim>\<open>BaseInput.receive(block=True)\<close>, on the deque \<open>q\<close>
  of the multiplexed port: a message in the deque is returned at once; otherwise
  \<^verbatim>\<open>_receive(block=True)\<close> is called, and when it returns the deque is looked at again.
  The multiplexed port itself is never closed by the program, which closes the ports
  under it.  The result is the message, what is left in the deque, and the world.
\<close>

partial_function (option) receive ::
  "(nat list \<Rightarrow> nat list) \<Rightarrow> nat list \<Rightarrow> message list \<Rightarrow> world
     \<Rightarrow> (message \<times> message list \<times> world) option" where
  "receive shuffle ps q w =
     (case q of
        msg # rest \<Rightarrow> Some (msg, rest, w)
      | [] \<Rightarrow> Option.bind (multi_receive shuffle True ps w)
                (\<lambda>r. receive shuffle ps (fst r) (snd r)))"

text \<open>
  \<open>read_events\<close>: \<open>shuffle\<close> is how the multiplexed port reorders its ports before
  each sweep (the library does it at random).  The deque of the multiplexed port is
  empty when the call is made: only \<^verbatim>\<open>receive\<close> fills it, and \<open>read_events\<close> is the only
  caller.  The result \<open>None\<close> is a call that does not return.
\<close>

definition read_events ::
  "(nat list \<Rightarrow> nat list) \<Rightarrow> bool \<Rightarrow> midi_io \<times> world \<Rightarrow> (midi_event list \<times> world) option" where
  "read_events shuffle non_blocking s =
     (let (m, w) = s in
      if input_ports m = [] then Some ([], w)
      else if non_blocking then Some (drain (input_ports m) w)
      else case multi_in m of
        None \<Rightarrow> Some ([], w)
      | Some mp \<Rightarrow>
          (case receive shuffle mp [] w of
             None \<Rightarrow> None
           | Some (msg, q, w1) \<Rightarrow>
               (let (evs, w2) = drain (input_ports m) w1 in
                Some (\<lparr>timestamp = now w, message = msg, port_name = None\<rparr> # evs, w2))))"

text \<open>\<open>send_event\<close>: each \<^verbatim>\<open>o.send\<close> is inside \<^verbatim>\<open>try ... except Exception: pass\<close>.\<close>

fun send_all :: "nat list \<Rightarrow> message \<Rightarrow> world \<Rightarrow> world" where
  "send_all [] msg w = w"
| "send_all (h # hs) msg w = send_all hs msg (snd (port_send h msg w))"

definition send_event :: "midi_event \<Rightarrow> midi_io \<times> world \<Rightarrow> world" where
  "send_event e s = (let (m, w) = s in send_all (output_ports m) (message e) w)"

section \<open>engine.py\<close>

datatype thread = Created | Started

record engine =
  running :: bool
  thread :: "thread option"

text \<open>
  \<open>stop\<close>: \<^verbatim>\<open>Thread.join\<close> raises RuntimeError on a thread object that was created
  and not started yet; on a started thread it returns after at most the timeout.
\<close>

definition stop :: "engine \<Rightarrow> exn option \<times> engine" where
  "stop e =
     (let e1 = e\<lparr>running := False\<rparr> in
      case thread e of
        None \<Rightarrow> (None, e1)
      | Some Created \<Rightarrow> (Some RuntimeError, e1)
      | Some Started \<Rightarrow> (None, e1))"

text \<open>
  The observer is a callback with a state of its own: called on an event it returns or
  raises.  \<open>call_observer\<close> is the guarded call of the loop,
  \<^verbatim>\<open>if self.event_callback: try: self.event_callback(e) except Exception: pass\<close>.
\<close>

type_synonym 'o observer = "midi_event \<Rightarrow> 'o \<Rightarrow> exn option \<times> 'o"

definition call_observer :: "'o observer option \<Rightarrow> midi_event \<Rightarrow> 'o \<Rightarrow> exn option \<times> 'o" where
  "call_observer cb e ob =
     (case cb of
        None \<Rightarrow> (None, ob)
      | Some f \<Rightarrow>
          (case f e ob of
             (None, ob1) \<Rightarrow> (None, ob1)
           | (Some x, ob1) \<Rightarrow> if is_Exception x then (None, ob1) else (Some x, ob1)))"

text \<open>The body of \<^verbatim>\<open>for e in events\<close> in \<open>_run\<close>, over the whole batch.\<close>

fun forward_events ::
  "'o observer option \<Rightarrow> midi_event list \<Rightarrow> midi_io \<Rightarrow> 'o \<times> world \<Rightarrow> exn option \<times> 'o \<times> world" where
  "forward_events cb [] m (ob, w) = (None, ob, w)"
| "forward_events cb (e # es) m (ob, w) =
     (case call_observer cb e ob of
        (Some x, ob1) \<Rightarrow> (Some x, ob1, w)
      | (None, ob1) \<Rightarrow> forward_events cb es m (ob1, send_event e (m, w)))"

text \<open>
  One pass of \<^verbatim>\<open>while self._running\<close>: the blocking read, then the batch.  \<open>None\<close> is
  a pass still waiting in the read.
\<close>

definition run_pass ::
  "(nat list \<Rightarrow> nat list) \<Rightarrow> 'o observer option \<Rightarrow> midi_io \<Rightarrow> 'o \<times> world
     \<Rightarrow> (exn option \<times> 'o \<times> world) option" where
  "run_pass shuffle cb m s =
     (let (ob, w) = s in
      case read_events shuffle False (m, w) of
        None \<Rightarrow> None
      | Some (events, w1) \<Rightarrow> Some (forward_events cb events m (ob, w1)))"

section \<open>main.py\<close>

text \<open>
  \<open>on_event\<close>: \<^verbatim>\<open>event_q.put_nowait(e)\<close> on an unbounded queue; the observer's state is
  the queue.
\<close>

definition on_event :: "(midi_event list) observer" where
  "on_event e q = (None, q @ [e])"

record app =
  eng :: engine
  io :: midi_io
  wld :: world
  disk :: fs

datatype step = StopEngine | CloseMidi | SaveConfig

text \<open>
  The three statements \<^verbatim>\<open>engine.stop(); midi.close(); save_config(cfg)\<close> that the
  signal handler \<open>_shutdown\<close> and the \<^verbatim>\<open>finally\<close> block of \<open>main\<close> both run.  The result
  holds the exception that ended them, if any, the steps that were entered, in order,
  and the state reached.
\<close>

definition shutdown_steps ::
  "(pyval \<Rightarrow> string) \<Rightarrow> config \<Rightarrow> path \<Rightarrow> app \<Rightarrow> exn option \<times> step list \<times> app" where
  "shutdown_steps safe_dump cfg p a =
     (case stop (eng a) of
        (Some e, e1) \<Rightarrow> (Some e, [StopEngine], a\<lparr>eng := e1\<rparr>)
      | (None, e1) \<Rightarrow>
          (let (m1, w1) = close (io a, wld a);
               a1 = a\<lparr>eng := e1, io := m1, wld := w1\<rparr>
           in case save_config safe_dump cfg p (disk a) of
                (Some e, tr) \<Rightarrow>
                  (Some e, [StopEngine, CloseMidi, SaveConfig], a1\<lparr>disk := last tr\<rparr>)
              | (None, tr) \<Rightarrow>
                  (None, [StopEngine, CloseMidi, SaveConfig], a1\<lparr>disk := last tr\<rparr>)))"

text \<open>\<open>_shutdown\<close>: the three steps, then \<^verbatim>\<open>sys.exit(0)\<close>, which raises SystemExit.\<close>

definition shutdown_handler ::
  "(pyval \<Rightarrow> string) \<Rightarrow> config \<Rightarrow> path \<Rightarrow> app \<Rightarrow> exn option \<times> step list \<times> app" where
  "shutdown_handler safe_dump cfg p a =
     (case shutdown_steps safe_dump cfg p a of
        (None, steps, a1) \<Rightarrow> (Some SystemExit, steps, a1)
      | r \<Rightarrow> r)"

section \<open>Auxiliary notions for the statements\<close>

text \<open>
  The state at program start: no port object yet, the host offering the given input and
  output names.
\<close>

definition fresh_world :: "string list \<Rightarrow> string list \<Rightarrow> world" where
  "fresh_world ins outs =
     \<lparr>ports = Map.empty, next_id = 0, input_names = ins, output_names = outs,
      calls = [], now = 0\<rparr>"

text \<open>The names \<^verbatim>\<open>mido\<close> can open in a direction.\<close>

definition avail :: "direction \<Rightarrow> world \<Rightarrow> string list" where
  "avail d w = (case d of In \<Rightarrow> input_names w | Out \<Rightarrow> output_names w)"

text \<open>The environment: a message arrives on a port and joins its queue.\<close>

definition deliver :: "nat \<Rightarrow> message \<Rightarrow> world \<Rightarrow> world" where
  "deliver h msg w =
     (case ports w h of
        None \<Rightarrow> w
      | Some p \<Rightarrow> w\<lparr>ports := (ports w)(h \<mapsto> p\<lparr>pending := pending p @ [msg]\<rparr>)\<rparr>)"

definition pending_of :: "world \<Rightarrow> nat \<Rightarrow> message list" where
  "pending_of w h = (case ports w h of None \<Rightarrow> [] | Some p \<Rightarrow> pending p)"

definition sent_of :: "world \<Rightarrow> nat \<Rightarrow> message list" where
  "sent_of w h = (case ports w h of None \<Rightarrow> [] | Some p \<Rightarrow> sent p)"

definition name_at :: "world \<Rightarrow> nat \<Rightarrow> string" where
  "name_at w h = (case ports w h of None \<Rightarrow> [] | Some p \<Rightarrow> name p)"

definition is_open :: "world \<Rightarrow> nat \<Rightarrow> bool" where
  "is_open w h = (case ports w h of None \<Rightarrow> False | Some p \<Rightarrow> port_open p)"

text \<open>The handles of the port objects that are open, in increasing order.\<close>

definition open_handles :: "world \<Rightarrow> nat list" where
  "open_handles w = filter (is_open w) [0..<next_id w]"

text \<open>A port that takes what is sent to it: it is open and its driver does not fail.\<close>

definition accepts :: "world \<Rightarrow> nat \<Rightarrow> bool" where
  "accepts w h = (case ports w h of None \<Rightarrow> False | Some p \<Rightarrow> port_open p \<and> \<not> send_raises p)"

text \<open>
  A caller of the registry, as the port selection of the presentation layer is written:
  \<^verbatim>\<open>try: self.midi_io.open_inputs(selected) ... except Exception: pass\<close>.  The errors of
  the registry are OSError, so the caller goes on with the state the call left.
\<close>

datatype registry_call = OpenInputs "string list" | OpenOutputs "string list"

fun apply_call :: "registry_call \<Rightarrow> midi_io \<times> world \<Rightarrow> midi_io \<times> world" where
  "apply_call (OpenInputs names) s = snd (open_inputs names s)"
| "apply_call (OpenOutputs names) s = snd (open_outputs names s)"

fun run_calls :: "registry_call list \<Rightarrow> midi_io \<times> world \<Rightarrow> midi_io \<times> world" where
  "run_calls [] s = s"
| "run_calls (c # cs) s = run_calls cs (apply_call c s)"

text \<open>The list the most recent call of each direction asked for, \<open>cur\<close> if there is none.\<close>

fun requested_inputs :: "registry_call list \<Rightarrow> string list \<Rightarrow> string list" where
  "requested_inputs [] cur = cur"
| "requested_inputs (OpenInputs names # cs) cur = requested_inputs cs names"
| "requested_inputs (OpenOutputs names # cs) cur = requested_inputs cs cur"

fun requested_outputs :: "registry_call list \<Rightarrow> string list \<Rightarrow> string list" where
  "requested_outputs [] cur = cur"
| "requested_outputs (OpenInputs names # cs) cur = requested_outputs cs cur"
| "requested_outputs (OpenOutputs names # cs) cur = requested_outputs cs names"

text \<open>
  Replace semantics, as a trace of library calls: each call first sends a close to every
  port recorded in its direction, in order, and then opens the names it was given, in
  order.  \<open>ins\<close> and \<open>outs\<close> are the recorded handles and \<open>n\<close> the next fresh handle.
\<close>

fun replace_trace :: "registry_call list \<Rightarrow> nat list \<Rightarrow> nat list \<Rightarrow> nat \<Rightarrow> io_call list" where
  "replace_trace [] ins outs n = []"
| "replace_trace (OpenInputs names # cs) ins outs n =
     map Close ins @ map (Open In) names @
     replace_trace cs [n..<n + length names] outs (n + length names)"
| "replace_trace (OpenOutputs names # cs) ins outs n =
     map Close outs @ map (Open Out) names @
     replace_trace cs ins [n..<n + length names] (n + length names)"

fun names_available :: "world \<Rightarrow> registry_call \<Rightarrow> bool" where
  "names_available w (OpenInputs names) = (set names \<subseteq> set (input_names w))"
| "names_available w (OpenOutputs names) = (set names \<subseteq> set (output_names w))"

fun is_Close :: "io_call \<Rightarrow> bool" where
  "is_Close (Close h) = True"
| "is_Close _ = False"

fun is_Open :: "io_call \<Rightarrow> bool" where
  "is_Open (Open d n) = True"
| "is_Open _ = False"

text \<open>
  The registry and the world agree: the recorded handles are distinct, the open port
  objects are exactly the recorded ones, every port object has a handle below the next
  fresh one, no driver fails on close, and every port opened so far has been sent a close
  or is still recorded.
\<close>

definition registry_inv :: "midi_io \<times> world \<Rightarrow> bool" where
  "registry_inv s =
     (let (m, w) = s in
      distinct (input_ports m @ output_ports m) \<and>
      (\<forall>h. is_open w h = (h \<in> set (input_ports m) \<union> set (output_ports m))) \<and>
      (\<forall>h. ports w h \<noteq> None \<longrightarrow> h < next_id w) \<and>
      (\<forall>h p. ports w h = Some p \<longrightarrow> \<not> close_raises p) \<and>
      length (filter is_Close (calls w)) + length (input_ports m) + length (output_ports m)
        = length (filter is_Open (calls w)))"

text \<open>
  An observer that raises, if it raises, only what \<^verbatim>\<open>except Exception\<close> catches.
\<close>

definition raises_Exception_only :: "'o observer \<Rightarrow> bool" where
  "raises_Exception_only f = (\<forall>e ob x. fst (f e ob) = Some x \<longrightarrow> is_Exception x)"

text \<open>An observer that raises on every call.\<close>

definition failing_observer :: "nat observer" where
  "failing_observer e n = (Some RuntimeError, Suc n)"

subsection \<open>Sample data\<close>

text \<open>
  One configuration and the text PyYAML prints for it, and stand-ins for
  \<^verbatim>\<open>yaml.safe_dump\<close> and \<^verbatim>\<open>yaml.safe_load\<close> that agree with the library on the few
  documents the examples use; every general statement below is about arbitrary
  \<open>safe_dump\<close> and \<open>safe_load\<close>.
\<close>

definition example_config :: config where
  "example_config = \<lparr>midi = \<lparr>inputs = PList [PStr ''A''], outputs = PList [PStr ''O'']\<rparr>\<rparr>"

definition example_text :: string where
  "example_text = ''midi:\<newline>  inputs:\<newline>  - A\<newline>  outputs:\<newline>  - O\<newline>''"

definition example_dump :: "pyval \<Rightarrow> string" where
  "example_dump v = (if v = config_data example_config then example_text else [])"

definition example_load :: "string \<Rightarrow> exn + pyval" where
  "example_load text =
     (if text = example_text then Inr (config_data example_config)
      else if text = ''- A\<newline>'' then Inr (PList [PStr ''A''])
      else if text = [] then Inr PNone
      else Inl YAMLError)"

text \<open>
  The end-to-end scenario: inputs A and B and output O opened at start, the engine's
  thread in the given state, nothing on disk.
\<close>

definition example_app :: "thread option \<Rightarrow> app" where
  "example_app t =
     (let (m, w) = run_calls [OpenInputs [''A'', ''B''], OpenOutputs [''O'']]
                     (MidiIO0, fresh_world [''A'', ''B''] [''O''])
      in \<lparr>eng = \<lparr>running = True, thread = t\<rparr>, io = m, wld = w, disk = Map.empty\<rparr>)"

section \<open>The configuration store\<close>

subsection \<open>What the steps of save_config leave on disk\<close>

lemma walk_snoc:
  "walk pre (cs @ [c]) fs =
     (case walk pre cs fs of
        Some e \<Rightarrow> Some e
      | None \<Rightarrow>
          (case fs (pre @ cs @ [c]) of
             None \<Rightarrow> Some FileNotFoundError
           | Some (File t) \<Rightarrow> Some NotADirectoryError
           | Some Dir \<Rightarrow> None))"
  by (induction cs arbitrary: pre) (auto split: option.splits node.splits)

lemma walk_agree:
  "(\<And>q. length q \<le> length pre + length cs \<Longrightarrow> fs' q = fs q)
     \<Longrightarrow> walk pre cs fs' = walk pre cs fs"
proof (induction cs arbitrary: pre)
  case Nil
  show ?case by simp
next
  case (Cons c cs)
  have a: "fs' (pre @ [c]) = fs (pre @ [c])"
    by (rule Cons.prems) simp
  have b: "walk (pre @ [c]) cs fs' = walk (pre @ [c]) cs fs"
    by (rule Cons.IH) (simp add: Cons.prems)
  show ?case by (simp add: a b split: option.splits node.splits)
qed

lemma walk_error:
  "walk pre cs fs = Some e \<Longrightarrow>
   e = FileNotFoundError \<or> (\<exists>k t. 0 < k \<and> k \<le> length cs \<and> fs (pre @ take k cs) = Some (File t))"
proof (induction cs arbitrary: pre)
  case Nil
  then show ?case by simp
next
  case (Cons c cs)
  show ?case
  proof (cases "fs (pre @ [c])")
    case None
    with Cons.prems show ?thesis by simp
  next
    case (Some n)
    show ?thesis
    proof (cases n)
      case (File t)
      with Some have "fs (pre @ take 1 (c # cs)) = Some (File t)" by simp
      then show ?thesis by (intro disjI2 exI [of _ 1] exI [of _ t]) simp
    next
      case Dir
      with Some Cons.prems have "walk (pre @ [c]) cs fs = Some e" by simp
      from Cons.IH [OF this] show ?thesis
      proof
        assume "e = FileNotFoundError"
        then show ?thesis by simp
      next
        assume "\<exists>k t. 0 < k \<and> k \<le> length cs \<and> fs ((pre @ [c]) @ take k cs) = Some (File t)"
        then obtain k t where k: "0 < k" "k \<le> length cs"
          "fs ((pre @ [c]) @ take k cs) = Some (File t)" by blast
        then have "fs (pre @ take (Suc k) (c # cs)) = Some (File t)" by simp
        with k show ?thesis by (intro disjI2 exI [of _ "Suc k"] exI [of _ t]) simp
      qed
    qed
  qed
qed

lemma os_mkdir_Inr: "os_mkdir d fs = Inr fs' \<Longrightarrow> fs' = fs(d \<mapsto> Dir)"
  by (auto simp: os_mkdir_def split: if_splits option.splits)

lemma mkdir_longer:
  "mkdir parents exist_ok d fs = Inr fs' \<Longrightarrow> length d < length q \<Longrightarrow> fs' q = fs q"
proof (induction parents exist_ok d fs arbitrary: fs' rule: mkdir.induct)
  case (1 parents exist_ok d fs)
  show ?case
  proof (cases "os_mkdir d fs")
    case (Inr fs1)
    with "1.prems" have "fs' = fs(d \<mapsto> Dir)"
      by (simp add: mkdir.simps os_mkdir_Inr)
    with "1.prems"(2) show ?thesis by auto
  next
    case (Inl e)
    show ?thesis
    proof (cases "e = FileNotFoundError")
      case False
      with Inl "1.prems"(1) have "fs' = fs"
        by (simp add: mkdir.simps split: if_splits)
      then show ?thesis by simp
    next
      case True
      with Inl "1.prems"(1) obtain fs1 where
        np: "\<not> (\<not> parents \<or> parent d = d)"
        and a: "mkdir True True (parent d) fs = Inr fs1"
        and b: "mkdir False exist_ok d fs1 = Inr fs'"
        by (subst (asm) mkdir.simps) (auto split: if_splits sum.splits)
      have "length (parent d) < length q"
        using "1.prems"(2) by (simp add: parent_def)
      from "1.IH"(1) [OF Inl True np a this] have "fs1 q = fs q" .
      moreover from "1.IH"(2) [OF Inl True np a b "1.prems"(2)] have "fs' q = fs1 q" .
      ultimately show ?thesis by simp
    qed
  qed
qed

lemma mkdir_ok:
  "(\<And>k t. 0 < k \<Longrightarrow> k \<le> length d \<Longrightarrow> fs (take k d) \<noteq> Some (File t))
     \<Longrightarrow> \<exists>fs'. mkdir True True d fs = Inr fs' \<and> walk [] d fs' = None"
proof (induction d rule: rev_induct)
  case Nil
  have "mkdir True True [] fs = Inr fs"
    by (simp add: mkdir.simps os_mkdir_def is_dir_def)
  then show ?case by simp
next
  case (snoc c ds)
  let ?d = "ds @ [c]"
  have nofile: "fs ?d \<noteq> Some (File t)" for t
    using snoc.prems [of "length ?d" t] by simp
  have pre: "fs (take k ds) \<noteq> Some (File t)" if "0 < k" "k \<le> length ds" for k t
    using snoc.prems [of k t] that by simp
  from snoc.IH [OF pre] obtain fs1 where
    a: "mkdir True True ds fs = Inr fs1" and w1: "walk [] ds fs1 = None"
    by blast
  have same: "fs1 ?d = fs ?d"
    using mkdir_longer [OF a, of ?d] by simp
  have made: "\<exists>fs'. mkdir False True ?d g = Inr fs' \<and> walk [] ?d fs' = None"
    if wg: "walk [] ds g = None" and gd: "g ?d = fs ?d" for g
  proof (cases "fs ?d")
    case None
    have "walk [] ds (g(?d \<mapsto> Dir)) = walk [] ds g"
      by (rule walk_agree) auto
    with wg have "walk [] ?d (g(?d \<mapsto> Dir)) = None"
      by (simp add: walk_snoc)
    moreover have "mkdir False True ?d g = Inr (g(?d \<mapsto> Dir))"
      using None wg gd by (simp add: mkdir.simps os_mkdir_def)
    ultimately show ?thesis by simp
  next
    case (Some n)
    with nofile have n: "g ?d = Some Dir" using gd by (cases n) auto
    with wg have "walk [] ?d g = None" by (simp add: walk_snoc)
    moreover from this have "mkdir False True ?d g = Inr g"
      using n wg by (simp add: mkdir.simps os_mkdir_def is_dir_def)
    ultimately show ?thesis by simp
  qed
  show ?case
  proof (cases "walk [] ds fs")
    case None
    from made [OF None refl] obtain fs' where
      m: "mkdir False True ?d fs = Inr fs'" and w: "walk [] ?d fs' = None" by blast
    have "os_mkdir ?d fs \<noteq> Inl FileNotFoundError"
      using None by (auto simp: os_mkdir_def split: option.splits)
    then have "mkdir True True ?d fs = mkdir False True ?d fs"
      by (subst mkdir.simps, subst (2) mkdir.simps) (auto split: sum.splits)
    with m w show ?thesis by simp
  next
    case (Some e)
    from walk_error [OF Some] pre have e: "e = FileNotFoundError"
      by auto
    with Some have "os_mkdir ?d fs = Inl FileNotFoundError"
      by (simp add: os_mkdir_def)
    then have "mkdir True True ?d fs = mkdir False True ?d fs1"
      using a by (subst mkdir.simps) (simp add: parent_def)
    moreover from made [OF w1 same] obtain fs' where
      "mkdir False True ?d fs1 = Inr fs'" "walk [] ?d fs' = None" by blast
    ultimately show ?thesis by simp
  qed
qed

lemma with_suffix_length:
  "with_suffix p s = Inr q \<Longrightarrow> length q = length p \<and> p \<noteq> [] \<and> q \<noteq> [] \<and> butlast q = butlast p"
  by (auto simp: with_suffix_def name_of_def Let_def split: if_splits)

lemma last_write_text:
  "write_text q text fs = Inr ws \<Longrightarrow> ws \<noteq> [] \<and> last ws = fs(q \<mapsto> File text)"
  by (auto simp: write_text_def last_map split: if_splits option.splits node.splits)

lemma write_text_other:
  "write_text q text fs = Inr ws \<Longrightarrow> s \<in> set ws \<Longrightarrow> p \<noteq> q \<Longrightarrow> s p = fs p"
  by (auto simp: write_text_def split: if_splits option.splits node.splits)

text \<open>
  When the temporary path differs from the destination, every state the disk goes
  through holds at the destination what was there before the call, or, once the rename
  has happened, the whole new text.
\<close>

lemma save_config_states:
  assumes tmp: "with_suffix p ''.tmp'' = Inr tmp" "tmp \<noteq> p"
      and run: "save_config safe_dump cfg p fs = (r, tr)"
      and s: "s \<in> set tr"
  shows "s p = fs p \<or>
         (r = None \<and> s = last tr \<and> s p = Some (File (safe_dump (config_data cfg))))"
proof -
  from tmp have len: "length (parent p) < length p" "length (parent p) < length tmp"
    by (auto simp: parent_def dest!: with_suffix_length)
  show ?thesis
  proof (cases "mkdir True True (parent p) fs")
    case (Inl e)
    with run s show ?thesis by (auto simp: save_config_def)
  next
    case (Inr fs1)
    then have fs1: "fs1 p = fs p"
      using mkdir_longer len by blast
    show ?thesis
    proof (cases "write_text tmp (safe_dump (config_data cfg)) fs1")
      case (Inl e)
      with Inr run s tmp fs1 show ?thesis by (auto simp: save_config_def)
    next
      case ws: (Inr ws)
      have keep: "\<And>s. s \<in> set ws \<Longrightarrow> s p = fs p"
        using write_text_other [OF ws] tmp(2) fs1 by metis
      from last_write_text [OF ws]
      have lw: "ws \<noteq> []" "last ws = fs1(tmp \<mapsto> File (safe_dump (config_data cfg)))"
        by auto
      show ?thesis
      proof (cases "replace tmp p (last ws)")
        case (Inl e)
        with Inr ws run s tmp fs1 keep show ?thesis
          by (auto simp: save_config_def)
      next
        case fs2: (Inr fs2)
        then have "fs2 p = Some (File (safe_dump (config_data cfg)))"
          using lw tmp(2) by (auto simp: replace_def split: if_splits)
        with Inr ws fs2 run s tmp fs1 keep show ?thesis
          by (auto simp: save_config_def)
      qed
    qed
  qed
qed

text \<open>Before the rename, and in a call that raises, the destination is untouched.\<close>

lemma save_config_no_rename:
  assumes tmp: "with_suffix p ''.tmp'' = Inr tmp" "tmp \<noteq> p"
      and run: "save_config safe_dump cfg p fs = (r, tr)"
      and s: "s \<in> set (butlast tr) \<or> (r \<noteq> None \<and> s \<in> set tr)"
  shows "s p = fs p"
proof -
  from tmp have len: "length (parent p) < length p" "length (parent p) < length tmp"
    by (auto simp: parent_def dest!: with_suffix_length)
  show ?thesis
  proof (cases "mkdir True True (parent p) fs")
    case (Inl e)
    with run s show ?thesis by (auto simp: save_config_def)
  next
    case (Inr fs1)
    then have fs1: "fs1 p = fs p"
      using mkdir_longer len by blast
    show ?thesis
    proof (cases "write_text tmp (safe_dump (config_data cfg)) fs1")
      case (Inl e)
      with Inr run s tmp fs1 show ?thesis by (auto simp: save_config_def)
    next
      case ws: (Inr ws)
      have keep: "\<And>s. s \<in> set ws \<Longrightarrow> s p = fs p"
        using write_text_other [OF ws] tmp(2) fs1 by metis
      show ?thesis
      proof (cases "replace tmp p (last ws)")
        case (Inl e)
        with Inr ws run s tmp fs1 keep show ?thesis
          by (auto simp: save_config_def split: if_splits dest!: in_set_butlastD)
      next
        case fs2: (Inr fs2)
        with Inr ws run tmp have "r = None" "butlast tr = [fs, fs1] @ ws"
          by (auto simp: save_config_def butlast_append)
        with s fs1 keep show ?thesis by auto
      qed
    qed
  qed
qed

text \<open>
  C1: save_config writes the text to a temporary file and renames it over the
  destination, so that the destination never holds a partial write.  The temporary path
  is \<^verbatim>\<open>p.with_suffix(".tmp")\<close>: for a destination whose suffix is already \<^verbatim>\<open>.tmp\<close> it is
  the destination itself, and the text is written in place.  With the destination
  \<^verbatim>\<open>config.tmp\<close> holding \<^verbatim>\<open>old\<close>, the call returns normally, and on its way the
  destination is first empty and then holds the first five characters of the new text:
  a crash at either point leaves neither the previous nor the new version.
\<close>

theorem save_config_tmp_destination:
  "with_suffix [''config.tmp''] ''.tmp'' = Inr [''config.tmp'']
   \<and> fst (save_config example_dump example_config [''config.tmp'']
            [[''config.tmp''] \<mapsto> File ''old'']) = None
   \<and> (snd (save_config example_dump example_config [''config.tmp'']
            [[''config.tmp''] \<mapsto> File ''old'']) ! 2) [''config.tmp''] = Some (File [])
   \<and> (snd (save_config example_dump example_config [''config.tmp'']
            [[''config.tmp''] \<mapsto> File ''old'']) ! 7) [''config.tmp''] = Some (File ''midi:'')"
  by (simp add: save_config_def with_suffix_def name_of_def suffix_of_def parent_def
      mkdir.simps os_mkdir_def is_dir_def write_text_def replace_def example_dump_def
      example_text_def
      nth_append last_map)

text \<open>
  C2: for all lists of port names, save_config followed by load_config on the same path
  returns a configuration with the same two lists.  The YAML library is a parameter:
  the statement asks of it that loading the text it dumps for this configuration gives
  the dumped document back.  The path is one save_config can write to: it has a name,
  no ancestor of it is a file, and neither it nor its temporary path is a directory.
\<close>

theorem save_config_load_config_roundtrip:
  assumes cfg: "cfg = \<lparr>midi = \<lparr>inputs = PList (map PStr ins), outputs = PList (map PStr outs)\<rparr>\<rparr>"
      and rt: "safe_load (safe_dump (config_data cfg)) = Inr (config_data cfg)"
      and anc: "\<forall>k t. 0 < k \<and> k < length p \<longrightarrow> fs (take k p) \<noteq> Some (File t)"
      and tmp: "with_suffix p ''.tmp'' = Inr tmp"
      and nodir: "fs tmp \<noteq> Some Dir" "fs p \<noteq> Some Dir"
  shows "\<exists>tr. save_config safe_dump cfg p fs = (None, tr) \<and>
              load_config safe_load p (last tr) = Inr cfg"
proof -
  let ?text = "safe_dump (config_data cfg)"
  from tmp have len: "length (parent p) < length p" "length (parent p) < length tmp"
    by (auto simp: parent_def dest!: with_suffix_length)
  have "\<exists>fs1. mkdir True True (parent p) fs = Inr fs1 \<and> walk [] (parent p) fs1 = None"
  proof (rule mkdir_ok)
    fix k t assume k: "0 < k" "k \<le> length (parent p)"
    then have "take k (parent p) = take k p"
      by (simp add: parent_def take_butlast)
    moreover have "fs (take k p) \<noteq> Some (File t)"
      using anc k by (simp add: parent_def)
    ultimately show "fs (take k (parent p)) \<noteq> Some (File t)" by simp
  qed
  then obtain fs1 where mk: "mkdir True True (parent p) fs = Inr fs1"
    and wk: "walk [] (parent p) fs1 = None" by blast
  have same: "fs1 p = fs p" "fs1 tmp = fs tmp"
    using mkdir_longer [OF mk] len by auto
  from tmp have tp: "tmp \<noteq> []" "butlast tmp = parent p"
    by (auto simp: parent_def dest!: with_suffix_length)
  define ws where "ws = map (\<lambda>k. fs1(tmp \<mapsto> File (take k ?text))) [0..<Suc (length ?text)]"
  have wr: "write_text tmp ?text fs1 = Inr ws"
    using same nodir tp wk
    by (auto simp: write_text_def ws_def split: option.splits node.splits)
  from last_write_text [OF wr] have lw: "last ws = fs1(tmp \<mapsto> File ?text)" by simp
  define fs2 where "fs2 = (if tmp = p then last ws else ((last ws)(tmp := None))(p \<mapsto> File ?text))"
  have rp: "replace tmp p (last ws) = Inr fs2"
    using lw same nodir by (auto simp: replace_def fs2_def)
  have sv: "save_config safe_dump cfg p fs = (None, [fs, fs1] @ ws @ [fs2])"
    using mk tmp wr rp by (simp add: save_config_def)
  have at_p: "fs2 p = Some (File ?text)"
    using lw by (simp add: fs2_def)
  have "load_config safe_load p fs2 = Inr cfg"
    using at_p rt by (simp add: load_config_def config_data_def cfg)
  with sv show ?thesis by simp
qed

theorem save_config_load_config_roundtrip_witness:
  "example_config = \<lparr>midi = \<lparr>inputs = PList (map PStr [''A'']), outputs = PList (map PStr [''O''])\<rparr>\<rparr>
   \<and> example_load (example_dump (config_data example_config)) = Inr (config_data example_config)
   \<and> with_suffix [''etc'', ''config.yaml''] ''.tmp'' = Inr [''etc'', ''config.tmp'']
   \<and> (\<exists>tr. save_config example_dump example_config [''etc'', ''config.yaml''] Map.empty = (None, tr) \<and>
              load_config example_load [''etc'', ''config.yaml''] (last tr) = Inr example_config)"
proof -
  have c: "example_config = \<lparr>midi = \<lparr>inputs = PList (map PStr [''A'']), outputs = PList (map PStr [''O''])\<rparr>\<rparr>"
    by (simp add: example_config_def)
  have rt: "example_load (example_dump (config_data example_config)) = Inr (config_data example_config)"
    by (simp add: example_load_def example_dump_def)
  have t: "with_suffix [''etc'', ''config.yaml''] ''.tmp'' = Inr [''etc'', ''config.tmp'']"
    by (simp add: with_suffix_def name_of_def suffix_of_def)
  show ?thesis
    using save_config_load_config_roundtrip
      [where cfg = example_config and ins = "[''A'']" and outs = "[''O'']"
         and safe_load = example_load and safe_dump = example_dump
         and p = "[''etc'', ''config.yaml'']" and tmp = "[''etc'', ''config.tmp'']"
         and fs = Map.empty]
      c rt t by simp
qed

text \<open>
  C6 as stated fails: load_config has no handler of its own.  A path that exists and
  cannot be read as a file (a directory), a text that holds a list instead of a mapping,
  and a text that is not YAML each end the call with an exception.
\<close>

theorem load_config_raises:
  "load_config example_load [''config.yaml''] [[''config.yaml''] \<mapsto> Dir] = Inl IsADirectoryError
   \<and> load_config example_load [''config.yaml''] [[''config.yaml''] \<mapsto> File ''- A\<newline>''] = Inl AttributeError
   \<and> load_config example_load [''config.yaml''] [[''config.yaml''] \<mapsto> File ''{''] = Inl YAMLError"
  by (simp add: load_config_def example_load_def example_text_def)

text \<open>
  C6, amended: load_config returns the zero-value configuration when nothing exists at
  the path; when the path exists and cannot be read, or its text is rejected by the YAML
  parser, the error is raised to the caller.
\<close>

theorem load_config_missing_or_unreadable:
  "(fs p = None \<longrightarrow> load_config safe_load p fs = Inr Config0) \<and>
   (fs p = Some Dir \<longrightarrow> load_config safe_load p fs = Inl IsADirectoryError) \<and>
   (\<forall>t e. fs p = Some (File t) \<and> safe_load t = Inl e \<longrightarrow> load_config safe_load p fs = Inl e)"
  by (simp add: load_config_def)

theorem load_config_missing_or_unreadable_witness:
  "Map.empty [''config.yaml''] = None
   \<and> load_config example_load [''config.yaml''] Map.empty = Inr Config0
   \<and> [[''config.yaml''] \<mapsto> Dir] [''config.yaml''] = Some Dir
   \<and> load_config example_load [''config.yaml''] [[''config.yaml''] \<mapsto> Dir] = Inl IsADirectoryError
   \<and> [[''config.yaml''] \<mapsto> File ''{''] [''config.yaml''] = Some (File ''{'')
   \<and> example_load ''{'' = Inl YAMLError
   \<and> load_config example_load [''config.yaml''] [[''config.yaml''] \<mapsto> File ''{''] = Inl YAMLError"
proof -
  have a: "example_load ''{'' = Inl YAMLError"
    by (simp add: example_load_def example_text_def)
  show ?thesis
    using load_config_missing_or_unreadable [of Map.empty "[''config.yaml'']" example_load]
      load_config_missing_or_unreadable
        [of "[[''config.yaml''] \<mapsto> Dir]" "[''config.yaml'']" example_load]
      load_config_missing_or_unreadable
        [of "[[''config.yaml''] \<mapsto> File ''{'']" "[''config.yaml'']" example_load]
      a
    by simp
qed

section \<open>The port registry\<close>

subsection \<open>Effects of closing and opening\<close>

lemma port_close_fields:
  "calls (snd (port_close h w)) = calls w @ [Close h]"
  "next_id (snd (port_close h w)) = next_id w"
  "input_names (snd (port_close h w)) = input_names w"
  "output_names (snd (port_close h w)) = output_names w"
  "now (snd (port_close h w)) = now w"
  by (simp_all add: port_close_def Let_def split: option.splits)

lemma port_close_ports:
  "ports (snd (port_close h w)) k =
     (case ports w k of
        None \<Rightarrow> None
      | Some p \<Rightarrow> if k = h \<and> \<not> close_raises p then Some (p\<lparr>port_open := False\<rparr>) else Some p)"
  by (simp add: port_close_def Let_def split: option.splits)

lemma close_all_fields:
  "calls (close_all hs w) = calls w @ map Close hs"
  "next_id (close_all hs w) = next_id w"
  "input_names (close_all hs w) = input_names w"
  "output_names (close_all hs w) = output_names w"
  "now (close_all hs w) = now w"
  by (induction hs arbitrary: w; simp add: port_close_fields)+

lemma close_all_ports:
  "ports (close_all hs w) k =
     (case ports w k of
        None \<Rightarrow> None
      | Some p \<Rightarrow> if k \<in> set hs \<and> \<not> close_raises p then Some (p\<lparr>port_open := False\<rparr>) else Some p)"
proof (induction hs arbitrary: w)
  case Nil
  show ?case by (simp split: option.splits)
next
  case (Cons h hs)
  show ?case
    by (simp add: Cons.IH port_close_ports split: option.splits)
qed

lemma mido_open_avail:
  "avail d' (snd (mido_open d n w)) = avail d' w"
  by (simp add: mido_open_def avail_def Let_def split: direction.splits)

lemma mido_open_ok:
  "n \<in> set (avail d w) \<Longrightarrow>
   mido_open d n w =
     (Inr (next_id w),
      w\<lparr>calls := calls w @ [Open d n],
        ports := (ports w)(next_id w \<mapsto> new_port n),
        next_id := Suc (next_id w)\<rparr>)"
  by (simp add: mido_open_def avail_def Let_def)

lemma mido_open_fail:
  "n \<notin> set (avail d w) \<Longrightarrow> mido_open d n w = (Inl OSError, w\<lparr>calls := calls w @ [Open d n]\<rparr>)"
  by (simp add: mido_open_def avail_def Let_def)

lemma open_loop_ok:
  "set ns \<subseteq> set (avail d w) \<Longrightarrow>
   \<exists>w'. open_loop d ns acc w = (Inr (acc @ [next_id w..<next_id w + length ns]), w') \<and>
        calls w' = calls w @ map (Open d) ns \<and>
        next_id w' = next_id w + length ns \<and>
        input_names w' = input_names w \<and> output_names w' = output_names w \<and>
        now w' = now w \<and>
        (\<forall>k. ports w' k =
           (if next_id w \<le> k \<and> k < next_id w + length ns
            then Some (new_port (ns ! (k - next_id w))) else ports w k))"
proof (induction ns arbitrary: acc w)
  case Nil
  show ?case by auto
next
  case (Cons n ns)
  let ?w1 = "w\<lparr>calls := calls w @ [Open d n],
        ports := (ports w)(next_id w \<mapsto> new_port n),
        next_id := Suc (next_id w)\<rparr>"
  from Cons.prems have n: "n \<in> set (avail d w)" and ns: "set ns \<subseteq> set (avail d ?w1)"
    by (auto simp: avail_def split: direction.splits)
  from Cons.IH [OF ns, of "acc @ [next_id w]"] obtain w' where
    run: "open_loop d ns (acc @ [next_id w]) ?w1 =
            (Inr ((acc @ [next_id w]) @ [next_id ?w1..<next_id ?w1 + length ns]), w')"
    and c: "calls w' = calls ?w1 @ map (Open d) ns"
    and i: "next_id w' = next_id ?w1 + length ns"
    and nm: "input_names w' = input_names ?w1" "output_names w' = output_names ?w1"
      "now w' = now ?w1"
    and p: "\<forall>k. ports w' k =
           (if next_id ?w1 \<le> k \<and> k < next_id ?w1 + length ns
            then Some (new_port (ns ! (k - next_id ?w1))) else ports ?w1 k)"
    by blast
  have upt: "[next_id w..<next_id w + length (n # ns)]
               = next_id w # [next_id ?w1..<next_id ?w1 + length ns]"
    by (simp add: upt_conv_Cons del: upt_Suc)
  have step: "open_loop d (n # ns) acc w = open_loop d ns (acc @ [next_id w]) ?w1"
    by (simp add: mido_open_ok [OF n])
  have "open_loop d (n # ns) acc w = (Inr (acc @ [next_id w..<next_id w + length (n # ns)]), w')"
    unfolding step run upt by simp
  moreover have "\<forall>k. ports w' k =
           (if next_id w \<le> k \<and> k < next_id w + length (n # ns)
            then Some (new_port ((n # ns) ! (k - next_id w))) else ports w k)"
  proof
    fix k
    show "ports w' k =
           (if next_id w \<le> k \<and> k < next_id w + length (n # ns)
            then Some (new_port ((n # ns) ! (k - next_id w))) else ports w k)"
    proof (cases "k = next_id w")
      case True
      then show ?thesis using p by simp
    next
      case False
      then show ?thesis using p
        by (auto simp: nth_Cons' Suc_diff_le)
    qed
  qed
  ultimately show ?case using c i nm by simp
qed

lemma open_loop_calls:
  "calls (snd (open_loop d ns acc w)) =
     calls w @ map (Open d) (take (Suc (length (takeWhile (\<lambda>n. n \<in> set (avail d w)) ns))) ns)"
proof (induction ns arbitrary: acc w)
  case Nil
  show ?case by simp
next
  case (Cons n ns)
  show ?case
  proof (cases "n \<in> set (avail d w)")
    case True
    let ?w1 = "w\<lparr>calls := calls w @ [Open d n],
        ports := (ports w)(next_id w \<mapsto> new_port n),
        next_id := Suc (next_id w)\<rparr>"
    have "avail d ?w1 = avail d w" by (simp add: avail_def split: direction.splits)
    then show ?thesis
      using True Cons.IH [of "acc @ [next_id w]" ?w1]
      by (simp add: mido_open_ok [OF True])
  next
    case False
    then show ?thesis by (simp add: mido_open_fail)
  qed
qed

lemma open_loop_fail:
  "\<not> set ns \<subseteq> set (avail d w) \<Longrightarrow> fst (open_loop d ns acc w) = Inl OSError"
proof (induction ns arbitrary: acc w)
  case Nil
  then show ?case by simp
next
  case (Cons n ns)
  show ?case
  proof (cases "n \<in> set (avail d w)")
    case True
    let ?w1 = "w\<lparr>calls := calls w @ [Open d n],
        ports := (ports w)(next_id w \<mapsto> new_port n),
        next_id := Suc (next_id w)\<rparr>"
    have "avail d ?w1 = avail d w" by (simp add: avail_def split: direction.splits)
    with Cons.prems True have "\<not> set ns \<subseteq> set (avail d ?w1)" by auto
    from Cons.IH [OF this, of "acc @ [next_id w]"] show ?thesis
      by (simp add: mido_open_ok [OF True])
  next
    case False
    then show ?thesis by (simp add: mido_open_fail)
  qed
qed

lemma example_app_eval:
  "example_app t =
     \<lparr>eng = \<lparr>running = True, thread = t\<rparr>,
      io = \<lparr>input_ports = [0, 1], output_ports = [2], multi_in = Some [0, 1]\<rparr>,
      wld = \<lparr>ports = [0 \<mapsto> new_port ''A'', 1 \<mapsto> new_port ''B'', Suc (Suc 0) \<mapsto> new_port ''O''],
             next_id = 3, input_names = [''A'', ''B''], output_names = [''O''],
             calls = [Open In ''A'', Open In ''B'', Open Out ''O''], now = 0\<rparr>,
      disk = Map.empty\<rparr>"
  by (simp add: example_app_def open_inputs_def open_outputs_def close_inputs_def
      close_outputs_def MidiIO0_def fresh_world_def mido_open_def Let_def)

subsection \<open>Opening a list of names\<close>

text \<open>
  C5 as stated fails: with the host offering A and B, open_inputs on A, X, B raises at
  X; B is never attempted, and A, which did open (handle 0 is open), is not recorded.
\<close>

theorem open_inputs_aborts_on_failure:
  "fst (open_inputs [''A'', ''X'', ''B''] (MidiIO0, fresh_world [''A'', ''B''] [''O''])) = Some OSError
   \<and> calls (snd (snd (open_inputs [''A'', ''X'', ''B''] (MidiIO0, fresh_world [''A'', ''B''] [''O''])))) 
       = [Open In ''A'', Open In ''X'']
   \<and> input_ports (fst (snd (open_inputs [''A'', ''X'', ''B''] (MidiIO0, fresh_world [''A'', ''B''] [''O''])))) = []
   \<and> open_handles (snd (snd (open_inputs [''A'', ''X'', ''B''] (MidiIO0, fresh_world [''A'', ''B''] [''O''])))) = [0]"
  by (simp add: open_inputs_def close_inputs_def MidiIO0_def fresh_world_def mido_open_def
      open_handles_def is_open_def new_port_def Let_def)

text \<open>
  C5, amended: open_inputs closes the recorded inputs, then attempts the names in
  order up to and including the first one that fails to open; that failure is raised to
  the caller, which makes it observable, and the names after it are not attempted.  When
  every name opens, the call returns normally and records exactly the new ports, in the
  order of the names, all open, with the multiplexed port over them.
\<close>

theorem open_inputs_until_first_failure:
  "case open_inputs names (m, w) of (r, m', w') \<Rightarrow>
     calls w' = calls w @ map Close (input_ports m) @
        map (Open In) (take (Suc (length (takeWhile (\<lambda>n. n \<in> set (input_names w)) names))) names)
     \<and> (\<not> set names \<subseteq> set (input_names w) \<longrightarrow> r = Some OSError)
     \<and> (set names \<subseteq> set (input_names w) \<longrightarrow>
          r = None \<and> input_ports m' = [next_id w..<next_id w + length names]
          \<and> map (name_at w') (input_ports m') = names
          \<and> (\<forall>h \<in> set (input_ports m'). is_open w' h)
          \<and> multi_in m' = (if names = [] then None else Some (input_ports m')))"
proof -
  let ?w1 = "close_all (input_ports m) w"
  have av: "avail In ?w1 = input_names w"
    by (simp add: avail_def close_all_fields)
  have c: "calls (snd (open_loop In names [] ?w1)) = calls w @ map Close (input_ports m) @
        map (Open In) (take (Suc (length (takeWhile (\<lambda>n. n \<in> set (input_names w)) names))) names)"
    by (simp add: open_loop_calls av close_all_fields)
  show ?thesis
  proof (cases "set names \<subseteq> set (input_names w)")
    case False
    then have "fst (open_loop In names [] ?w1) = Inl OSError"
      by (intro open_loop_fail) (simp add: av)
    with c False show ?thesis
      by (auto simp: open_inputs_def close_inputs_def split: prod.splits sum.splits)
  next
    case True
    then have "set names \<subseteq> set (avail In ?w1)" by (simp add: av)
    from open_loop_ok [OF this, of "[]"] obtain w' where
      run: "open_loop In names [] ?w1 = (Inr [next_id w..<next_id w + length names], w')"
      and p: "\<forall>k. ports w' k =
           (if next_id w \<le> k \<and> k < next_id w + length names
            then Some (new_port (names ! (k - next_id w))) else ports ?w1 k)"
      by (auto simp: close_all_fields)
    have nm: "map (name_at w') [next_id w..<next_id w + length names] = names"
      by (rule nth_equalityI) (simp_all add: name_at_def p new_port_def)
    have op: "\<forall>h \<in> set [next_id w..<next_id w + length names]. is_open w' h"
      by (simp add: is_open_def p new_port_def)
    from c run True nm op show ?thesis
      by (auto simp: open_inputs_def close_inputs_def)
  qed
qed

theorem open_inputs_until_first_failure_witness:
  "\<not> set [''A'', ''X'', ''B''] \<subseteq> set (input_names (fresh_world [''A'', ''B''] [''O'']))
   \<and> fst (open_inputs [''A'', ''X'', ''B''] (MidiIO0, fresh_world [''A'', ''B''] [''O''])) = Some OSError
   \<and> set [''B'', ''A''] \<subseteq> set (input_names (fresh_world [''A'', ''B''] [''O'']))
   \<and> fst (open_inputs [''B'', ''A''] (MidiIO0, fresh_world [''A'', ''B''] [''O''])) = None
   \<and> input_ports (fst (snd (open_inputs [''B'', ''A''] (MidiIO0, fresh_world [''A'', ''B''] [''O''])))) = [0, 1]
   \<and> multi_in (fst (snd (open_inputs [''B'', ''A''] (MidiIO0, fresh_world [''A'', ''B''] [''O''])))) = Some [0, 1]"
  using open_inputs_until_first_failure
      [where names = "[''A'', ''X'', ''B'']" and m = MidiIO0 and w = "fresh_world [''A'', ''B''] [''O'']"]
    open_inputs_until_first_failure
      [where names = "[''B'', ''A'']" and m = MidiIO0 and w = "fresh_world [''A'', ''B''] [''O'']"]
  by (simp add: fresh_world_def split: prod.splits)

subsection \<open>Reading\<close>

text \<open>
  C10: read_events in blocking mode returns the empty list at once, instead of waiting,
  when no input is open or when the multiplexed port is absent.
\<close>

theorem read_events_blocking_without_inputs:
  "input_ports m = [] \<or> multi_in m = None \<Longrightarrow> read_events shuffle False (m, w) = Some ([], w)"
  by (auto simp: read_events_def)

theorem read_events_blocking_without_inputs_witness:
  "(input_ports MidiIO0 = [] \<or> multi_in MidiIO0 = None)
   \<and> read_events rev False (MidiIO0, fresh_world [''A''] [''O'']) = Some ([], fresh_world [''A''] [''O''])
   \<and> (input_ports \<lparr>input_ports = [0], output_ports = [], multi_in = None\<rparr> = []
        \<or> multi_in \<lparr>input_ports = [0], output_ports = [], multi_in = None\<rparr> = None)
   \<and> read_events rev False
         (\<lparr>input_ports = [0], output_ports = [], multi_in = None\<rparr>,
          deliver 0 [144, 60, 64] (snd (snd (open_inputs [''A''] (MidiIO0, fresh_world [''A''] [''O''])))))
       = Some ([], deliver 0 [144, 60, 64] (snd (snd (open_inputs [''A''] (MidiIO0, fresh_world [''A''] [''O''])))))"
  using read_events_blocking_without_inputs [of MidiIO0 rev "fresh_world [''A''] [''O'']"]
    read_events_blocking_without_inputs
      [of "\<lparr>input_ports = [0], output_ports = [], multi_in = None\<rparr>" rev
          "deliver 0 [144, 60, 64] (snd (snd (open_inputs [''A''] (MidiIO0, fresh_world [''A''] [''O'']))))"]
  by (simp add: MidiIO0_def)
subsection \<open>Sequences of open calls\<close>

lemma reopen_is_open:
  assumes p: "\<forall>k. ports w' k =
           (if lo \<le> k \<and> k < lo + length ns
            then Some (new_port (ns ! (k - lo))) else ports (close_all hs w) k)"
      and healthy: "\<forall>h p. ports w h = Some p \<longrightarrow> \<not> close_raises p"
  shows "is_open w' k = ((lo \<le> k \<and> k < lo + length ns) \<or> (is_open w k \<and> k \<notin> set hs))"
proof (cases "lo \<le> k \<and> k < lo + length ns")
  case True
  then show ?thesis by (simp add: is_open_def p new_port_def)
next
  case False
  then have "ports w' k = ports (close_all hs w) k" by (auto simp: p)
  then show ?thesis
    using False healthy by (auto simp: is_open_def close_all_ports split: option.splits)
qed

lemma reopen_name_at:
  assumes p: "\<forall>k. ports w' k =
           (if lo \<le> k \<and> k < lo + length ns
            then Some (new_port (ns ! (k - lo))) else ports (close_all hs w) k)"
  shows "name_at w' k = (if lo \<le> k \<and> k < lo + length ns then ns ! (k - lo) else name_at w k)"
  by (simp add: name_at_def p new_port_def close_all_ports split: option.splits)

lemma reopen_healthy:
  assumes p: "\<forall>k. ports w' k =
           (if lo \<le> k \<and> k < lo + length ns
            then Some (new_port (ns ! (k - lo))) else ports (close_all hs w) k)"
      and healthy: "\<forall>h p. ports w h = Some p \<longrightarrow> \<not> close_raises p"
  shows "\<forall>h q. ports w' h = Some q \<longrightarrow> \<not> close_raises q"
  using healthy
  by (auto simp: p new_port_def close_all_ports split: if_splits option.splits)

lemma reopen_bounded:
  assumes p: "\<forall>k. ports w' k =
           (if lo \<le> k \<and> k < lo + length ns
            then Some (new_port (ns ! (k - lo))) else ports (close_all hs w) k)"
      and b: "\<forall>h. ports w h \<noteq> None \<longrightarrow> h < lo"
  shows "\<forall>h. ports w' h \<noteq> None \<longrightarrow> h < lo + length ns"
proof (intro allI impI)
  fix h assume h: "ports w' h \<noteq> None"
  show "h < lo + length ns"
  proof (cases "lo \<le> h \<and> h < lo + length ns")
    case True
    then show ?thesis by simp
  next
    case False
    with h have "ports (close_all hs w) h \<noteq> None" by (auto simp: p)
    then have "ports w h \<noteq> None" by (auto simp: close_all_ports split: option.splits)
    with b have "h < lo" by blast
    then show ?thesis by simp
  qed
qed

lemma map_name_at_new:
  assumes nm: "\<And>k. name_at w' k = (if lo \<le> k \<and> k < lo + length ns then ns ! (k - lo) else name_at w k)"
  shows "map (name_at w') [lo..<lo + length ns] = ns"
  by (rule nth_equalityI) (simp_all add: nm)

lemma map_name_at_old:
  assumes nm: "\<And>k. name_at w' k = (if lo \<le> k \<and> k < lo + length ns then ns ! (k - lo) else name_at w k)"
      and old: "\<forall>h \<in> set hs. h < lo"
  shows "map (name_at w') hs = map (name_at w) hs"
  using old by (auto simp: nm)

lemma count_opens:
  "length (filter is_Close (map (Open d) ns)) = 0 \<and>
   length (filter is_Open (map (Open d) ns)) = length ns"
  by (induction ns) simp_all

lemma count_closes:
  "length (filter is_Close (map Close hs)) = length hs \<and>
   length (filter is_Open (map Close hs)) = 0"
  by (induction hs) simp_all

lemma is_open_bounded:
  "\<forall>h. ports w h \<noteq> None \<longrightarrow> h < next_id w \<Longrightarrow> is_open w h \<Longrightarrow> h < next_id w"
  by (auto simp: is_open_def split: option.splits)

lemma open_inputs_step:
  assumes inv: "registry_inv (m, w)" and av: "set names \<subseteq> set (input_names w)"
  shows "\<exists>m' w'. open_inputs names (m, w) = (None, m', w') \<and> registry_inv (m', w') \<and>
           map (name_at w') (input_ports m') = names \<and>
           map (name_at w') (output_ports m') = map (name_at w) (output_ports m) \<and>
           input_names w' = input_names w \<and> output_names w' = output_names w"
proof -
  let ?ins = "input_ports m" and ?outs = "output_ports m"
  let ?w1 = "close_all ?ins w"
  let ?lo = "next_id w"
  let ?new = "[?lo..<?lo + length names]"
  from inv have d: "distinct (?ins @ ?outs)"
    and op: "\<And>h. is_open w h = (h \<in> set ?ins \<union> set ?outs)"
    and b: "\<forall>h. ports w h \<noteq> None \<longrightarrow> h < ?lo"
    and healthy: "\<forall>h p. ports w h = Some p \<longrightarrow> \<not> close_raises p"
    and cnt: "length (filter is_Close (calls w)) + length ?ins + length ?outs
                = length (filter is_Open (calls w))"
    by (simp_all add: registry_inv_def)
  have "set names \<subseteq> set (avail In ?w1)"
    using av by (simp add: avail_def close_all_fields)
  from open_loop_ok [OF this, of "[]"] obtain w' where
    run: "open_loop In names [] ?w1 = (Inr ?new, w')"
    and c: "calls w' = calls w @ map Close ?ins @ map (Open In) names"
    and i: "next_id w' = ?lo + length names"
    and nm: "input_names w' = input_names w" "output_names w' = output_names w"
    and p: "\<forall>k. ports w' k =
           (if ?lo \<le> k \<and> k < ?lo + length names
            then Some (new_port (names ! (k - ?lo))) else ports ?w1 k)"
    by (auto simp: close_all_fields)
  define m' where "m' = m\<lparr>input_ports := ?new,
                          multi_in := (if ?new \<noteq> [] then Some ?new else None)\<rparr>"
  have res: "open_inputs names (m, w) = (None, m', w')"
    using run by (simp add: open_inputs_def close_inputs_def m'_def)
  have outs_lt: "\<forall>h \<in> set ?outs. h < ?lo"
    using op b is_open_bounded by blast
  have io: "is_open w' k = (k \<in> set ?new \<union> set ?outs)" for k
  proof -
    have "is_open w' k = ((?lo \<le> k \<and> k < ?lo + length names) \<or> (is_open w k \<and> k \<notin> set ?ins))"
      by (rule reopen_is_open [OF p healthy])
    also have "(is_open w k \<and> k \<notin> set ?ins) = (k \<in> set ?outs)"
      using op d by auto
    finally show ?thesis by auto
  qed
  have d': "distinct (?new @ ?outs)"
    using d outs_lt by auto
  have b': "\<forall>h. ports w' h \<noteq> None \<longrightarrow> h < next_id w'"
    using reopen_bounded [OF p b] i by simp
  have h': "\<forall>h q. ports w' h = Some q \<longrightarrow> \<not> close_raises q"
    by (rule reopen_healthy [OF p healthy])
  have cnt': "length (filter is_Close (calls w')) + length ?new + length ?outs
                = length (filter is_Open (calls w'))"
    using cnt by (simp add: c count_opens count_closes)
  have inv': "registry_inv (m', w')"
    using d' io b' h' cnt' by (simp add: registry_inv_def m'_def)
  have na: "name_at w' k = (if ?lo \<le> k \<and> k < ?lo + length names then names ! (k - ?lo)
                           else name_at w k)" for k
    by (rule reopen_name_at [OF p])
  have n1: "map (name_at w') (input_ports m') = names"
    using map_name_at_new [of w' ?lo names w] na by (simp add: m'_def)
  have n2: "map (name_at w') (output_ports m') = map (name_at w) ?outs"
    using map_name_at_old [of w' ?lo names w ?outs] na outs_lt by (simp add: m'_def)
  from res inv' n1 n2 nm show ?thesis by blast
qed

lemma open_outputs_step:
  assumes inv: "registry_inv (m, w)" and av: "set names \<subseteq> set (output_names w)"
  shows "\<exists>m' w'. open_outputs names (m, w) = (None, m', w') \<and> registry_inv (m', w') \<and>
           map (name_at w') (output_ports m') = names \<and>
           map (name_at w') (input_ports m') = map (name_at w) (input_ports m) \<and>
           input_names w' = input_names w \<and> output_names w' = output_names w"
proof -
  let ?ins = "input_ports m" and ?outs = "output_ports m"
  let ?w1 = "close_all ?outs w"
  let ?lo = "next_id w"
  let ?new = "[?lo..<?lo + length names]"
  from inv have d: "distinct (?ins @ ?outs)"
    and op: "\<And>h. is_open w h = (h \<in> set ?ins \<union> set ?outs)"
    and b: "\<forall>h. ports w h \<noteq> None \<longrightarrow> h < ?lo"
    and healthy: "\<forall>h p. ports w h = Some p \<longrightarrow> \<not> close_raises p"
    and cnt: "length (filter is_Close (calls w)) + length ?ins + length ?outs
                = length (filter is_Open (calls w))"
    by (simp_all add: registry_inv_def)
  have "set names \<subseteq> set (avail Out ?w1)"
    using av by (simp add: avail_def close_all_fields)
  from open_loop_ok [OF this, of "[]"] obtain w' where
    run: "open_loop Out names [] ?w1 = (Inr ?new, w')"
    and c: "calls w' = calls w @ map Close ?outs @ map (Open Out) names"
    and i: "next_id w' = ?lo + length names"
    and nm: "input_names w' = input_names w" "output_names w' = output_names w"
    and p: "\<forall>k. ports w' k =
           (if ?lo \<le> k \<and> k < ?lo + length names
            then Some (new_port (names ! (k - ?lo))) else ports ?w1 k)"
    by (auto simp: close_all_fields)
  define m' where "m' = m\<lparr>output_ports := ?new\<rparr>"
  have res: "open_outputs names (m, w) = (None, m', w')"
    using run by (simp add: open_outputs_def close_outputs_def m'_def)
  have ins_lt: "\<forall>h \<in> set ?ins. h < ?lo"
    using op b is_open_bounded by blast
  have io: "is_open w' k = (k \<in> set ?ins \<union> set ?new)" for k
  proof -
    have "is_open w' k = ((?lo \<le> k \<and> k < ?lo + length names) \<or> (is_open w k \<and> k \<notin> set ?outs))"
      by (rule reopen_is_open [OF p healthy])
    also have "(is_open w k \<and> k \<notin> set ?outs) = (k \<in> set ?ins)"
      using op d by auto
    finally show ?thesis by auto
  qed
  have d': "distinct (?ins @ ?new)"
    using d ins_lt by auto
  have b': "\<forall>h. ports w' h \<noteq> None \<longrightarrow> h < next_id w'"
    using reopen_bounded [OF p b] i by simp
  have h': "\<forall>h q. ports w' h = Some q \<longrightarrow> \<not> close_raises q"
    by (rule reopen_healthy [OF p healthy])
  have cnt': "length (filter is_Close (calls w')) + length ?ins + length ?new
                = length (filter is_Open (calls w'))"
    using cnt by (simp add: c count_opens count_closes)
  have inv': "registry_inv (m', w')"
    using d' io b' h' cnt' by (simp add: registry_inv_def m'_def)
  have na: "name_at w' k = (if ?lo \<le> k \<and> k < ?lo + length names then names ! (k - ?lo)
                           else name_at w k)" for k
    by (rule reopen_name_at [OF p])
  have n1: "map (name_at w') (output_ports m') = names"
    using map_name_at_new [of w' ?lo names w] na by (simp add: m'_def)
  have n2: "map (name_at w') (input_ports m') = map (name_at w) ?ins"
    using map_name_at_old [of w' ?lo names w ?ins] na ins_lt by (simp add: m'_def)
  from res inv' n1 n2 nm show ?thesis by blast
qed

lemma run_calls_inv:
  assumes "registry_inv (m, w)" "\<forall>c \<in> set cs. names_available w c"
  shows "case run_calls cs (m, w) of (m', w') \<Rightarrow>
           registry_inv (m', w') \<and>
           map (name_at w') (input_ports m') = requested_inputs cs (map (name_at w) (input_ports m)) \<and>
           map (name_at w') (output_ports m') = requested_outputs cs (map (name_at w) (output_ports m))"
  using assms
proof (induction cs arbitrary: m w)
  case Nil
  then show ?case by simp
next
  case (Cons c cs)
  show ?case
  proof (cases c)
    case (OpenInputs names)
    with Cons.prems have av: "set names \<subseteq> set (input_names w)" by simp
    from open_inputs_step [OF Cons.prems(1) av] obtain m1 w1 where
      r: "open_inputs names (m, w) = (None, m1, w1)" and inv1: "registry_inv (m1, w1)"
      and n: "map (name_at w1) (input_ports m1) = names"
        "map (name_at w1) (output_ports m1) = map (name_at w) (output_ports m)"
      and nm: "input_names w1 = input_names w" "output_names w1 = output_names w"
      by blast
    have "\<forall>c \<in> set cs. names_available w1 c"
    proof
      fix c' assume "c' \<in> set cs"
      with Cons.prems(2) have "names_available w c'" by simp
      then show "names_available w1 c'" by (cases c') (simp_all add: nm)
    qed
    from Cons.IH [OF inv1 this] show ?thesis
      by (simp add: OpenInputs r n)
  next
    case (OpenOutputs names)
    with Cons.prems have av: "set names \<subseteq> set (output_names w)" by simp
    from open_outputs_step [OF Cons.prems(1) av] obtain m1 w1 where
      r: "open_outputs names (m, w) = (None, m1, w1)" and inv1: "registry_inv (m1, w1)"
      and n: "map (name_at w1) (output_ports m1) = names"
        "map (name_at w1) (input_ports m1) = map (name_at w) (input_ports m)"
      and nm: "input_names w1 = input_names w" "output_names w1 = output_names w"
      by blast
    have "\<forall>c \<in> set cs. names_available w1 c"
    proof
      fix c' assume "c' \<in> set cs"
      with Cons.prems(2) have "names_available w c'" by simp
      then show "names_available w1 c'" by (cases c') (simp_all add: nm)
    qed
    from Cons.IH [OF inv1 this] show ?thesis
      by (simp add: OpenOutputs r n)
  qed
qed

lemma registry_inv_open_handles:
  "registry_inv (m, w) \<Longrightarrow> set (open_handles w) = set (input_ports m) \<union> set (output_ports m)"
proof -
  assume inv: "registry_inv (m, w)"
  then have op: "\<And>h. is_open w h = (h \<in> set (input_ports m) \<union> set (output_ports m))"
    and b: "\<forall>h. ports w h \<noteq> None \<longrightarrow> h < next_id w"
    by (simp_all add: registry_inv_def)
  have "set (open_handles w) = {h. is_open w h}"
    using is_open_bounded [OF b] by (auto simp: open_handles_def)
  then show ?thesis using op by auto
qed

text \<open>The library calls a sequence of open calls makes.\<close>

lemma open_inputs_trace:
  assumes av: "set names \<subseteq> set (input_names w)"
  shows "case open_inputs names (m, w) of (r, m', w') \<Rightarrow>
           calls w' = calls w @ map Close (input_ports m) @ map (Open In) names \<and>
           input_ports m' = [next_id w..<next_id w + length names] \<and>
           output_ports m' = output_ports m \<and>
           next_id w' = next_id w + length names \<and>
           input_names w' = input_names w \<and> output_names w' = output_names w"
proof -
  have "set names \<subseteq> set (avail In (close_all (input_ports m) w))"
    using av by (simp add: avail_def close_all_fields)
  from open_loop_ok [OF this, of "[]"] show ?thesis
    by (auto simp: open_inputs_def close_inputs_def close_all_fields)
qed

lemma open_outputs_trace:
  assumes av: "set names \<subseteq> set (output_names w)"
  shows "case open_outputs names (m, w) of (r, m', w') \<Rightarrow>
           calls w' = calls w @ map Close (output_ports m) @ map (Open Out) names \<and>
           output_ports m' = [next_id w..<next_id w + length names] \<and>
           input_ports m' = input_ports m \<and>
           next_id w' = next_id w + length names \<and>
           input_names w' = input_names w \<and> output_names w' = output_names w"
proof -
  have "set names \<subseteq> set (avail Out (close_all (output_ports m) w))"
    using av by (simp add: avail_def close_all_fields)
  from open_loop_ok [OF this, of "[]"] show ?thesis
    by (auto simp: open_outputs_def close_outputs_def close_all_fields)
qed

lemma names_available_cong:
  "input_names w' = input_names w \<Longrightarrow> output_names w' = output_names w
     \<Longrightarrow> names_available w' c = names_available w c"
  by (cases c) simp_all

lemma run_calls_trace:
  "\<forall>c \<in> set cs. names_available w c \<Longrightarrow>
   calls (snd (run_calls cs (m, w))) =
     calls w @ replace_trace cs (input_ports m) (output_ports m) (next_id w)"
proof (induction cs arbitrary: m w)
  case Nil
  show ?case by simp
next
  case (Cons c cs)
  show ?case
  proof (cases c)
    case (OpenInputs names)
    with Cons.prems have av: "set names \<subseteq> set (input_names w)" by simp
    obtain r m1 w1 where o: "open_inputs names (m, w) = (r, m1, w1)"
      by (cases "open_inputs names (m, w)")
    with open_inputs_trace [OF av, of m] have
      f: "calls w1 = calls w @ map Close (input_ports m) @ map (Open In) names"
        "input_ports m1 = [next_id w..<next_id w + length names]"
        "output_ports m1 = output_ports m" "next_id w1 = next_id w + length names"
        "input_names w1 = input_names w" "output_names w1 = output_names w"
      by simp_all
    have "\<forall>c \<in> set cs. names_available w1 c"
      using Cons.prems names_available_cong [OF f(5,6)] by simp
    from Cons.IH [OF this, of m1] show ?thesis
      by (simp add: OpenInputs o f)
  next
    case (OpenOutputs names)
    with Cons.prems have av: "set names \<subseteq> set (output_names w)" by simp
    obtain r m1 w1 where o: "open_outputs names (m, w) = (r, m1, w1)"
      by (cases "open_outputs names (m, w)")
    with open_outputs_trace [OF av, of m] have
      f: "calls w1 = calls w @ map Close (output_ports m) @ map (Open Out) names"
        "output_ports m1 = [next_id w..<next_id w + length names]"
        "input_ports m1 = input_ports m" "next_id w1 = next_id w + length names"
        "input_names w1 = input_names w" "output_names w1 = output_names w"
      by simp_all
    have "\<forall>c \<in> set cs. names_available w1 c"
      using Cons.prems names_available_cong [OF f(5,6)] by simp
    from Cons.IH [OF this, of m1] show ?thesis
      by (simp add: OpenOutputs o f)
  qed
qed

text \<open>
  C7 as stated fails for a sequence in which a port fails to open.  With the host
  offering A and B, open_inputs on A, X leaves no input recorded although A was opened
  (handle 0); a following open_inputs on B closes nothing, so that afterwards handle 0,
  from the earlier call, is still open beside the recorded handle 1.
\<close>

theorem open_calls_leak_after_failure:
  "input_ports (fst (run_calls [OpenInputs [''A'', ''X''], OpenInputs [''B'']]
       (MidiIO0, fresh_world [''A'', ''B''] [''O'']))) = [1]
   \<and> open_handles (snd (run_calls [OpenInputs [''A'', ''X''], OpenInputs [''B'']]
       (MidiIO0, fresh_world [''A'', ''B''] [''O'']))) = [0, 1]
   \<and> input_ports (fst (run_calls [OpenInputs [''A'', ''X'']]
       (MidiIO0, fresh_world [''A'', ''B''] [''O'']))) = []
   \<and> open_handles (snd (run_calls [OpenInputs [''A'', ''X'']]
       (MidiIO0, fresh_world [''A'', ''B''] [''O'']))) = [0]"
  by (simp add: open_inputs_def close_inputs_def MidiIO0_def fresh_world_def mido_open_def
      port_close_def open_handles_def is_open_def new_port_def Let_def upt_rec)

text \<open>
  C7, amended: for every sequence of open_inputs and open_outputs calls in which every
  requested name can be opened, started from the empty registry, each call first closes
  all the ports recorded in its direction and then opens the names it was given: the
  library calls made are exactly those of \<open>replace_trace\<close>, in that order.  Afterwards
  the recorded inputs and outputs are the ports of the most recent list of each
  direction, in order, and they are exactly the port objects that are open, so that no
  handle of an earlier call remains open; the number of closes plus the number of
  recorded ports is the number of opens.
\<close>

theorem open_calls_replace:
  assumes "\<forall>c \<in> set cs. names_available (fresh_world ins outs) c"
  shows "case run_calls cs (MidiIO0, fresh_world ins outs) of (m, w) \<Rightarrow>
           map (name_at w) (input_ports m) = requested_inputs cs [] \<and>
           map (name_at w) (output_ports m) = requested_outputs cs [] \<and>
           calls w = replace_trace cs [] [] 0 \<and>
           set (open_handles w) = set (input_ports m) \<union> set (output_ports m) \<and>
           distinct (input_ports m @ output_ports m) \<and>
           length (filter is_Close (calls w)) + length (input_ports m) + length (output_ports m)
             = length (filter is_Open (calls w))"
proof -
  have inv0: "registry_inv (MidiIO0, fresh_world ins outs)"
    by (simp add: registry_inv_def MidiIO0_def fresh_world_def is_open_def)
  obtain m w where r: "run_calls cs (MidiIO0, fresh_world ins outs) = (m, w)"
    by (cases "run_calls cs (MidiIO0, fresh_world ins outs)")
  from run_calls_inv [OF inv0 assms] r
  have inv: "registry_inv (m, w)"
    and n: "map (name_at w) (input_ports m) = requested_inputs cs []"
      "map (name_at w) (output_ports m) = requested_outputs cs []"
    by (simp_all add: MidiIO0_def)
  from inv have "distinct (input_ports m @ output_ports m)"
    "length (filter is_Close (calls w)) + length (input_ports m) + length (output_ports m)
             = length (filter is_Open (calls w))"
    by (simp_all add: registry_inv_def)
  moreover have "calls w = replace_trace cs [] [] 0"
    using run_calls_trace [OF assms, of MidiIO0] r by (simp add: MidiIO0_def fresh_world_def)
  ultimately show ?thesis
    using registry_inv_open_handles [OF inv] n r by simp
qed

theorem open_calls_replace_witness:
  "names_available (fresh_world [''A'', ''B''] [''O'']) (OpenInputs [''A'', ''B''])
   \<and> names_available (fresh_world [''A'', ''B''] [''O'']) (OpenOutputs [''O''])
   \<and> names_available (fresh_world [''A'', ''B''] [''O'']) (OpenInputs [''B''])
   \<and> (case run_calls [OpenInputs [''A'', ''B''], OpenOutputs [''O''], OpenInputs [''B'']]
              (MidiIO0, fresh_world [''A'', ''B''] [''O'']) of
         (m, w) \<Rightarrow>
           map (name_at w) (input_ports m) = [''B''] \<and>
           map (name_at w) (output_ports m) = [''O''] \<and>
           calls w = [Open In ''A'', Open In ''B'', Open Out ''O'', Close 0, Close 1,
                      Open In ''B''] \<and>
           set (open_handles w) = set (input_ports m) \<union> set (output_ports m) \<and>
           length (filter is_Close (calls w)) + length (input_ports m) + length (output_ports m)
             = length (filter is_Open (calls w)))"
  using open_calls_replace
    [where cs = "[OpenInputs [''A'', ''B''], OpenOutputs [''O''], OpenInputs [''B'']]"
       and ins = "[''A'', ''B'']" and outs = "[''O'']"]
  by (auto simp: fresh_world_def upt_rec split: prod.splits)

subsection \<open>The non-blocking read\<close>

lemma drain_Cons:
  "drain (h # hs) w =
     (case ports w h of
        None \<Rightarrow> drain hs w
      | Some p \<Rightarrow>
          (map (\<lambda>msg. \<lparr>timestamp = now w, message = msg, port_name = Some (name p)\<rparr>) (pending p)
             @ fst (drain hs (w\<lparr>ports := (ports w)(h \<mapsto> p\<lparr>pending := []\<rparr>)\<rparr>)),
           snd (drain hs (w\<lparr>ports := (ports w)(h \<mapsto> p\<lparr>pending := []\<rparr>)\<rparr>))))"
  by (simp add: case_prod_beta split: option.splits)

lemma drain_fields: "now (snd (drain hs w)) = now w \<and> calls (snd (drain hs w)) = calls w"
proof (induction hs arbitrary: w)
  case Nil
  show ?case by simp
next
  case (Cons h hs)
  show ?case
    by (simp add: drain_Cons Cons.IH del: drain.simps split: option.splits)
qed

lemma drain_pending:
  "pending_of (snd (drain hs w)) k = (if k \<in> set hs then [] else pending_of w k)"
proof (induction hs arbitrary: w)
  case Nil
  show ?case by simp
next
  case (Cons h hs)
  show ?case
  proof (cases "ports w h")
    case None
    then show ?thesis using Cons.IH [of w]
      by (auto simp: drain_Cons pending_of_def simp del: drain.simps)
  next
    case (Some p)
    let ?w1 = "w\<lparr>ports := (ports w)(h \<mapsto> p\<lparr>pending := []\<rparr>)\<rparr>"
    have "snd (drain (h # hs) w) = snd (drain hs ?w1)"
      using Some by (simp add: drain_Cons del: drain.simps)
    then show ?thesis using Cons.IH [of ?w1] by (auto simp: pending_of_def)
  qed
qed

lemma drain_messages:
  "distinct hs \<Longrightarrow> map message (fst (drain hs w)) = concat (map (pending_of w) hs)"
proof (induction hs arbitrary: w)
  case Nil
  show ?case by simp
next
  case (Cons h hs)
  show ?case
  proof (cases "ports w h")
    case None
    then show ?thesis using Cons
      by (simp add: drain_Cons pending_of_def del: drain.simps)
  next
    case (Some p)
    let ?w1 = "w\<lparr>ports := (ports w)(h \<mapsto> p\<lparr>pending := []\<rparr>)\<rparr>"
    have same: "map (pending_of ?w1) hs = map (pending_of w) hs"
      using Cons.prems by (auto simp: pending_of_def)
    have "map message (fst (drain (h # hs) w)) = pending p @ map message (fst (drain hs ?w1))"
      using Some by (simp add: drain_Cons comp_def del: drain.simps)
    also have "map message (fst (drain hs ?w1)) = concat (map (pending_of w) hs)"
      using Cons.IH [of ?w1] Cons.prems same by simp
    also have "pending p = pending_of w h"
      using Some by (simp add: pending_of_def)
    finally show ?thesis by simp
  qed
qed

lemma drain_tagged:
  "e \<in> set (fst (drain hs w)) \<Longrightarrow> \<exists>h \<in> set hs. port_name e = Some (name_at w h)"
proof (induction hs arbitrary: w)
  case Nil
  then show ?case by simp
next
  case (Cons h hs)
  show ?case
  proof (cases "ports w h")
    case None
    with Cons.prems have "e \<in> set (fst (drain hs w))"
      by (simp add: drain_Cons del: drain.simps)
    from Cons.IH [OF this] show ?thesis by auto
  next
    case (Some p)
    let ?w1 = "w\<lparr>ports := (ports w)(h \<mapsto> p\<lparr>pending := []\<rparr>)\<rparr>"
    have nm: "name_at ?w1 k = name_at w k" for k
      using Some by (simp add: name_at_def)
    from Cons.prems Some
    have "port_name e = Some (name p) \<or> e \<in> set (fst (drain hs ?w1))"
      by (auto simp: drain_Cons simp del: drain.simps)
    then show ?thesis
    proof
      assume "port_name e = Some (name p)"
      then show ?thesis using Some by (simp add: name_at_def)
    next
      assume "e \<in> set (fst (drain hs ?w1))"
      from Cons.IH [OF this] show ?thesis by (auto simp: nm)
    qed
  qed
qed

text \<open>
  In non-blocking mode the call returns at once with every message pending on the
  inputs, input by input, each tagged with the name of its port, and leaves the queues
  empty.
\<close>

lemma read_events_non_blocking:
  assumes "distinct (input_ports m)"
  shows "\<exists>evs w'. read_events shuffle True (m, w) = Some (evs, w') \<and>
           map message evs = concat (map (pending_of w) (input_ports m)) \<and>
           (\<forall>h \<in> set (input_ports m). pending_of w' h = []) \<and>
           (\<forall>e \<in> set evs. \<exists>h \<in> set (input_ports m). port_name e = Some (name_at w h))"
proof (cases "input_ports m = []")
  case True
  then show ?thesis by (simp add: read_events_def)
next
  case False
  obtain evs w' where d: "drain (input_ports m) w = (evs, w')"
    by (cases "drain (input_ports m) w")
  have "map message evs = concat (map (pending_of w) (input_ports m))"
    using drain_messages [OF assms, of w] d by simp
  moreover have "\<forall>h \<in> set (input_ports m). pending_of w' h = []"
    using drain_pending [of "input_ports m" w] d by simp
  moreover have "\<forall>e \<in> set evs. \<exists>h \<in> set (input_ports m). port_name e = Some (name_at w h)"
    using drain_tagged [of _ "input_ports m" w] d by simp
  moreover have "read_events shuffle True (m, w) = Some (evs, w')"
    using False d by (simp add: read_events_def)
  ultimately show ?thesis by blast
qed

subsection \<open>The blocking read\<close>

text \<open>
  The generator behind the multiplexed port ends only when it is not blocking: with
  \<^verbatim>\<open>block=True\<close> the \<^verbatim>\<open>extend\<close> of \<^verbatim>\<open>MultiPort._receive\<close> never returns, and neither does
  \<^verbatim>\<open>receive()\<close> on an empty deque.
\<close>

lemma multi_receive_ends: "multi_receive shuffle block ps w = Some r \<Longrightarrow> \<not> block"
proof -
  assume a: "multi_receive shuffle block ps w = Some r"
  show "\<not> block"
    by (rule multi_receive.raw_induct [where P = "\<lambda>sh b ps w r. \<not> b", OF _ a])
      (auto split: if_splits bind_splits, blast)
qed

lemma multi_receive_blocking: "multi_receive shuffle True ps w = None"
  using multi_receive_ends [of shuffle True ps w] by (cases "multi_receive shuffle True ps w") auto

lemma receive_empty_deque: "receive shuffle ps [] w = None"
  by (subst receive.simps) (simp add: multi_receive_blocking)

text \<open>
  So with an input open and the multiplexed port in place, a blocking read does not
  return, whatever is pending on the inputs and in whatever order they are polled.
\<close>

lemma read_events_blocking_hangs:
  "input_ports m \<noteq> [] \<Longrightarrow> multi_in m = Some mp \<Longrightarrow> read_events shuffle False (m, w) = None"
  by (simp add: read_events_def receive_empty_deque)

lemma run_pass_hangs:
  "input_ports m \<noteq> [] \<Longrightarrow> multi_in m = Some mp \<Longrightarrow> run_pass shuffle cb m (ob, w) = None"
  by (simp add: run_pass_def read_events_blocking_hangs)

text \<open>
  C4: with at least one input open, read_events in blocking mode waits until a message
  arrives and returns it together with every message pending on the inputs.  With
  inputs A and B open, a note-on pending on A and a note-off pending on B, the call does
  not return at all: \<^verbatim>\<open>self.multi_in.receive()\<close> never comes back, so the statements
  after it, which would collect the pending messages, are not reached.
\<close>

theorem read_events_blocking_never_returns:
  "read_events id False
     (io (example_app (Some Started)),
      deliver 1 [128, 60, 0] (deliver 0 [144, 60, 64] (wld (example_app (Some Started)))))
   = None"
  by (rule read_events_blocking_hangs [where mp = "[0, 1]"]) (simp_all add: example_app_eval)

text \<open>
  C8: in the end-to-end scenario (inputs A and B, output O, note-on from A, note-off from
  B) the two events reach the queue of the presentation layer, each tagged with the
  name of its port.  The pass of the engine over this state does not return: the
  observer is called after the blocking read, which does not come back, so the queue
  receives no event.
\<close>

theorem engine_pass_delivers_nothing:
  "run_pass id (Some on_event) (io (example_app (Some Started)))
     ([], deliver 1 [128, 60, 0] (deliver 0 [144, 60, 64] (wld (example_app (Some Started)))))
   = None"
  by (rule run_pass_hangs [where mp = "[0, 1]"]) (simp_all add: example_app_eval)
section \<open>The engine\<close>

lemma port_send_calls: "calls (snd (port_send h msg w)) = calls w @ [Send h msg]"
  by (simp add: port_send_def Let_def split: option.splits)

lemma port_send_ports:
  "ports (snd (port_send h msg w)) k =
     (case ports w k of
        None \<Rightarrow> None
      | Some p \<Rightarrow> if k = h \<and> port_open p \<and> \<not> send_raises p
                  then Some (p\<lparr>sent := sent p @ [msg]\<rparr>) else Some p)"
  by (simp add: port_send_def Let_def split: option.splits)

lemma send_all_calls: "calls (send_all hs msg w) = calls w @ map (\<lambda>h. Send h msg) hs"
  by (induction hs arbitrary: w) (simp_all add: port_send_calls)

lemma send_all_ports:
  "ports (send_all hs msg w) k =
     (case ports w k of
        None \<Rightarrow> None
      | Some p \<Rightarrow> if port_open p \<and> \<not> send_raises p
                  then Some (p\<lparr>sent := sent p @ replicate (count_list hs k) msg\<rparr>) else Some p)"
proof (induction hs arbitrary: w)
  case Nil
  show ?case by (simp split: option.splits)
next
  case (Cons h hs)
  show ?case
    by (simp add: Cons.IH port_send_ports replicate_app_Cons_same split: option.splits)
qed

lemma send_all_accepts: "accepts (send_all hs msg w) k = accepts w k"
  by (simp add: accepts_def send_all_ports split: option.splits)

lemma send_all_sent:
  "accepts w k \<Longrightarrow> sent_of (send_all hs msg w) k = sent_of w k @ replicate (count_list hs k) msg"
  by (simp add: accepts_def sent_of_def send_all_ports split: option.splits)

lemma call_observer_catches:
  "(case cb of None \<Rightarrow> True | Some f \<Rightarrow> raises_Exception_only f)
     \<Longrightarrow> fst (call_observer cb e ob) = None"
  by (auto simp: call_observer_def raises_Exception_only_def split: option.splits prod.splits)
    (metis fst_conv)

lemma forward_events_effect:
  assumes "case cb of None \<Rightarrow> True | Some f \<Rightarrow> raises_Exception_only f"
  shows "fst (forward_events cb events m (ob, w)) = None \<and>
         calls (snd (snd (forward_events cb events m (ob, w)))) =
           calls w @ concat (map (\<lambda>e. map (\<lambda>h. Send h (message e)) (output_ports m)) events) \<and>
         (\<forall>k. accepts w k \<longrightarrow>
            sent_of (snd (snd (forward_events cb events m (ob, w)))) k =
              sent_of w k @
              concat (map (\<lambda>e. replicate (count_list (output_ports m) k) (message e)) events))"
proof (induction events arbitrary: ob w)
  case Nil
  show ?case by simp
next
  case (Cons e es)
  obtain ob1 where co: "call_observer cb e ob = (None, ob1)"
    using call_observer_catches [OF assms, of e ob] by (cases "call_observer cb e ob") auto
  let ?w1 = "send_all (output_ports m) (message e) w"
  have step: "forward_events cb (e # es) m (ob, w) = forward_events cb es m (ob1, ?w1)"
    by (simp add: co send_event_def)
  show ?case
    unfolding step
    using Cons.IH [of ob1 ?w1]
    by (simp add: send_all_calls send_all_accepts send_all_sent)
qed

text \<open>
  C3: for every batch of events, whatever the observer does, returning or raising an
  Exception on every call, the loop body ends normally, the sends made are those of the
  first event to every output in turn, then those of the second, and so on in arrival
  order; and each output that takes its messages has received exactly the messages of
  the batch, in that order.
\<close>

theorem forward_events_observer_isolated:
  assumes "case cb of None \<Rightarrow> True | Some f \<Rightarrow> raises_Exception_only f"
  shows "case forward_events cb events m (ob, w) of (r, ob', w') \<Rightarrow>
           r = None \<and>
           calls w' = calls w @
             concat (map (\<lambda>e. map (\<lambda>h. Send h (message e)) (output_ports m)) events) \<and>
           (distinct (output_ports m) \<longrightarrow>
              (\<forall>h \<in> set (output_ports m). accepts w h \<longrightarrow>
                 sent_of w' h = sent_of w h @ map message events))"
proof -
  have one: "concat (map (\<lambda>e. replicate (count_list (output_ports m) h) (message e)) events)
               = map message events"
    if "distinct (output_ports m)" "h \<in> set (output_ports m)" for h
  proof -
    have "distinct xs \<Longrightarrow> h \<in> set xs \<Longrightarrow> count_list xs h = 1" for xs
      by (induction xs) auto
    from this [OF that] have "count_list (output_ports m) h = 1" .
    then show ?thesis by (induction events) simp_all
  qed
  from forward_events_effect [OF assms, of events m ob w] one show ?thesis
    by (auto split: prod.splits)
qed

theorem forward_events_observer_isolated_witness:
  "(case Some failing_observer of None \<Rightarrow> True | Some f \<Rightarrow> raises_Exception_only f)
   \<and> fst (forward_events (Some failing_observer)
            [\<lparr>timestamp = 0, message = [144, 60, 64], port_name = None\<rparr>,
             \<lparr>timestamp = 0, message = [128, 60, 0], port_name = Some ''B''\<rparr>]
            (io (example_app (Some Started))) (0, wld (example_app (Some Started)))) = None
   \<and> distinct (output_ports (io (example_app (Some Started))))
   \<and> 2 \<in> set (output_ports (io (example_app (Some Started))))
   \<and> accepts (wld (example_app (Some Started))) 2
   \<and> sent_of (snd (snd (forward_events (Some failing_observer)
            [\<lparr>timestamp = 0, message = [144, 60, 64], port_name = None\<rparr>,
             \<lparr>timestamp = 0, message = [128, 60, 0], port_name = Some ''B''\<rparr>]
            (io (example_app (Some Started))) (0, wld (example_app (Some Started)))))) 2
       = [[144, 60, 64], [128, 60, 0]]
   \<and> fst (snd (forward_events (Some failing_observer)
            [\<lparr>timestamp = 0, message = [144, 60, 64], port_name = None\<rparr>,
             \<lparr>timestamp = 0, message = [128, 60, 0], port_name = Some ''B''\<rparr>]
            (io (example_app (Some Started))) (0, wld (example_app (Some Started))))) = 2"
proof -
  have a: "case Some failing_observer of None \<Rightarrow> True | Some f \<Rightarrow> raises_Exception_only f"
    by (simp add: raises_Exception_only_def failing_observer_def)
  have b: "accepts (wld (example_app (Some Started))) 2"
    "sent_of (wld (example_app (Some Started))) 2 = []"
    by (simp_all add: accepts_def sent_of_def example_app_eval new_port_def)
  have c: "fst (snd (forward_events (Some failing_observer)
            [\<lparr>timestamp = 0, message = [144, 60, 64], port_name = None\<rparr>,
             \<lparr>timestamp = 0, message = [128, 60, 0], port_name = Some ''B''\<rparr>]
            (io (example_app (Some Started))) (0, wld (example_app (Some Started))))) = 2"
    by (simp add: call_observer_def failing_observer_def)
  show ?thesis
    using forward_events_observer_isolated [OF a,
        where events = "[\<lparr>timestamp = 0, message = [144, 60, 64], port_name = None\<rparr>,
             \<lparr>timestamp = 0, message = [128, 60, 0], port_name = Some ''B''\<rparr>]"
          and m = "io (example_app (Some Started))" and ob = 0
          and w = "wld (example_app (Some Started))"]
      a b c
    by (simp add: example_app_eval split: prod.splits)
qed

section \<open>Shutdown\<close>

text \<open>
  C9 as stated fails: the three statements follow each other with no handler, so an
  exception in \<^verbatim>\<open>engine.stop()\<close> ends the sequence.  With the engine's thread created and
  not yet started, \<^verbatim>\<open>join\<close> raises RuntimeError: only the first step is entered, the
  three ports stay open and nothing is saved.
\<close>

theorem shutdown_steps_stop_raises:
  "fst (shutdown_steps example_dump example_config [''config.yaml''] (example_app (Some Created)))
     = Some RuntimeError
   \<and> fst (snd (shutdown_steps example_dump example_config [''config.yaml'']
        (example_app (Some Created)))) = [StopEngine]
   \<and> open_handles (wld (snd (snd (shutdown_steps example_dump example_config [''config.yaml'']
        (example_app (Some Created)))))) = [0, 1, 2]
   \<and> disk (snd (snd (shutdown_steps example_dump example_config [''config.yaml'']
        (example_app (Some Created))))) [''config.yaml''] = None"
  by (simp add: shutdown_steps_def stop_def example_app_eval open_handles_def is_open_def
      new_port_def upt_rec)

text \<open>
  C9, amended: on shutdown the steps are entered in the order stop the engine, close
  all ports, persist the configuration.  When \<^verbatim>\<open>engine.stop()\<close> returns, the other two
  steps both run, whatever the individual ports do on close (their errors are dropped
  inside the close step): every recorded port is sent a close, the registry is emptied,
  and save_config decides the outcome.  When \<^verbatim>\<open>engine.stop()\<close> raises, the exception
  leaves the sequence and the later steps are not entered.
\<close>

theorem shutdown_steps_order:
  "case shutdown_steps safe_dump cfg p a of (r, steps, a') \<Rightarrow>
     (fst (stop (eng a)) = None \<longrightarrow>
        steps = [StopEngine, CloseMidi, SaveConfig]
        \<and> r = fst (save_config safe_dump cfg p (disk a))
        \<and> disk a' = last (snd (save_config safe_dump cfg p (disk a)))
        \<and> input_ports (io a') = [] \<and> output_ports (io a') = [] \<and> multi_in (io a') = None
        \<and> calls (wld a') = calls (wld a) @ map Close (input_ports (io a))
                                          @ map Close (output_ports (io a)))
     \<and> (\<forall>e. fst (stop (eng a)) = Some e \<longrightarrow>
          r = Some e \<and> steps = [StopEngine] \<and> io a' = io a \<and> wld a' = wld a \<and> disk a' = disk a)"
  by (auto simp: shutdown_steps_def close_def close_inputs_def close_outputs_def
      close_all_fields Let_def split: prod.splits option.splits)

theorem shutdown_steps_order_witness:
  "fst (stop (eng (example_app (Some Started)))) = None
   \<and> fst (snd (shutdown_steps example_dump example_config [''config.yaml'']
          (example_app (Some Started)))) = [StopEngine, CloseMidi, SaveConfig]
   \<and> fst (stop (eng (example_app (Some Created)))) = Some RuntimeError
   \<and> fst (snd (shutdown_steps example_dump example_config [''config.yaml'']
          (example_app (Some Created)))) = [StopEngine]"
  using shutdown_steps_order
      [where safe_dump = example_dump and cfg = example_config and p = "[''config.yaml'']"
         and a = "example_app (Some Started)"]
    shutdown_steps_order
      [where safe_dump = example_dump and cfg = example_config and p = "[''config.yaml'']"
         and a = "example_app (Some Created)"]
  by (simp add: stop_def example_app_eval split: prod.splits)


end
